theory Spec2Isabelle
  imports
    Complex_Main
    "HOL-Library.Product_Lexorder"
    "HOL-Library.Multiset"
    "HOL-Library.Sublist"
begin

section \<open>Python strings\<close>

text \<open>
  The scripts work on Python \<open>str\<close> values. They are modelled as \<open>string\<close> (a list of
  characters) with the ASCII reading of the \<open>str\<close> methods the code calls: the cased
  characters are \<open>A..Z\<close> and \<open>a..z\<close>, the white space characters are the ten ASCII ones
  that \<open>str.isspace\<close> accepts. A character outside ASCII is an uncased symbol here.
\<close>

definition ascii_uppercase :: string where
  "ascii_uppercase = ''ABCDEFGHIJKLMNOPQRSTUVWXYZ''"

definition ascii_lowercase :: string where
  "ascii_lowercase = ''abcdefghijklmnopqrstuvwxyz''"

definition whitespace :: string where
  "whitespace = [CHR 0x09, CHR 0x0A, CHR 0x0B, CHR 0x0C, CHR 0x0D,
                 CHR 0x1C, CHR 0x1D, CHR 0x1E, CHR 0x1F, CHR 0x20]"

definition is_upper_char :: "char \<Rightarrow> bool" where
  "is_upper_char c = (c \<in> set ascii_uppercase)"

definition is_lower_char :: "char \<Rightarrow> bool" where
  "is_lower_char c = (c \<in> set ascii_lowercase)"

definition is_space_char :: "char \<Rightarrow> bool" where
  "is_space_char c = (c \<in> set whitespace)"

definition lower_char :: "char \<Rightarrow> char" where
  "lower_char c = (case map_of (zip ascii_uppercase ascii_lowercase) c of
                     None \<Rightarrow> c | Some d \<Rightarrow> d)"

text \<open>\<open>s.lower()\<close>\<close>
definition str_lower :: "string \<Rightarrow> string" where
  "str_lower s = map lower_char s"

text \<open>\<open>s.strip()\<close>: leading and trailing white space removed.\<close>
definition str_strip :: "string \<Rightarrow> string" where
  "str_strip s = rev (dropWhile is_space_char (rev (dropWhile is_space_char s)))"

text \<open>\<open>s.isupper()\<close>: at least one cased character, and no lower-case one.\<close>
definition str_isupper :: "string \<Rightarrow> bool" where
  "str_isupper s = ((\<exists>c \<in> set s. is_upper_char c) \<and> (\<forall>c \<in> set s. \<not> is_lower_char c))"

text \<open>\<open>s.split()\<close>: the maximal runs of characters that are not white space.\<close>
fun split_words :: "string \<Rightarrow> string \<Rightarrow> string list" where
  "split_words cur [] = (if cur = [] then [] else [cur])"
| "split_words cur (c # cs) =
     (if is_space_char c
      then (if cur = [] then split_words [] cs else cur # split_words [] cs)
      else split_words (cur @ [c]) cs)"

definition str_split :: "string \<Rightarrow> string list" where
  "str_split s = split_words [] s"

text \<open>
  \<open>s.count(sub)\<close>: the number of non-overlapping occurrences of \<open>sub\<close>, found from the
  left. The first argument of \<open>count_from\<close> is the number of characters still covered by
  the occurrence found last.
\<close>
fun count_from :: "nat \<Rightarrow> string \<Rightarrow> string \<Rightarrow> nat" where
  "count_from skip sub [] = 0"
| "count_from (Suc skip) sub (c # cs) = count_from skip sub cs"
| "count_from 0 sub (c # cs) =
     (if prefix sub (c # cs) then Suc (count_from (length sub - 1) sub cs)
      else count_from 0 sub cs)"

definition str_count :: "string \<Rightarrow> string \<Rightarrow> nat" where
  "str_count s sub = (if sub = [] then Suc (length s) else count_from 0 sub s)"

text \<open>\<open>s.replace(old, new)\<close> for a one-character \<open>old\<close> and a one-character \<open>new\<close>.\<close>
definition replace_char :: "char \<Rightarrow> char \<Rightarrow> string \<Rightarrow> string" where
  "replace_char old new s = map (\<lambda>c. if c = old then new else c) s"

text \<open>\<open>s.replace(old, "")\<close> for a one-character \<open>old\<close>.\<close>
definition remove_char :: "char \<Rightarrow> string \<Rightarrow> string" where
  "remove_char old s = filter (\<lambda>c. c \<noteq> old) s"

text \<open>\<open>sub in s\<close> for strings: \<open>sub\<close> occurs in \<open>s\<close> as a contiguous block.\<close>
fun str_contains :: "string \<Rightarrow> string \<Rightarrow> bool" where
  "str_contains sub [] = (sub = [])"
| "str_contains sub (c # cs) = (prefix sub (c # cs) \<or> str_contains sub cs)"


section \<open>Dictionaries in insertion order\<close>

text \<open>
  A Python \<open>dict\<close> iterates in insertion order, and the scripts iterate over the
  dictionaries they build. A dictionary is therefore an association list with at most
  one entry per key, new keys at the end.
\<close>

text \<open>\<open>d[k] = v\<close>\<close>
fun dict_set :: "'k \<Rightarrow> 'v \<Rightarrow> ('k \<times> 'v) list \<Rightarrow> ('k \<times> 'v) list" where
  "dict_set k v [] = [(k, v)]"
| "dict_set k v ((k', v') # d) =
     (if k' = k then (k', v) # d else (k', v') # dict_set k v d)"

text \<open>\<open>d[k].append(v)\<close> on a \<open>defaultdict(list)\<close>\<close>
fun dict_append :: "'k \<Rightarrow> 'v \<Rightarrow> ('k \<times> 'v list) list \<Rightarrow> ('k \<times> 'v list) list" where
  "dict_append k v [] = [(k, [v])]"
| "dict_append k v ((k', vs) # d) =
     (if k' = k then (k', vs @ [v]) # d else (k', vs) # dict_append k v d)"


section \<open>Records\<close>

text \<open>
  A product is a Python \<open>dict\<close> from field names to strings. Every read in the code is
  \<open>p.get(field, '')\<close> or a truth test of \<open>p.get(field)\<close>, which do not tell a missing
  key from an empty string, so a product is a record of strings and a missing key is
  the empty string. The record is extensible: two products that agree on every named
  field can still be two different objects, differing in the extension.
\<close>

record product =
  product_id :: string
  lcbo_id :: string
  brand_name :: string
  product_name :: string
  category :: string
  subcategory :: string
  price :: string
  image_url :: string
  source :: string
  descriptors :: string
  gluten_free_score :: string

text \<open>The dictionary \<open>{}\<close>.\<close>
definition empty_product :: product where
  "empty_product = \<lparr>product_id = [], lcbo_id = [], brand_name = [], product_name = [],
     category = [], subcategory = [], price = [], image_url = [], source = [],
     descriptors = [], gluten_free_score = []\<rparr>"


section \<open>Record Merger\<close>

text \<open>
  \<open>AlcoholDataProcessor.merge_duplicates\<close> (alcohol_data_processor.py). The sort key is
  the tuple \<open>(not image_url, not price, len(product_name))\<close>; Python compares tuples
  lexicographically, \<open>False < True\<close>, and \<open>sorted\<close> is stable, as \<open>sort_key\<close> is.
\<close>

definition merge_key :: "'a product_scheme \<Rightarrow> bool \<times> bool \<times> nat" where
  "merge_key p = (image_url p = [], price p = [], length (product_name p))"

text \<open>One pass of the body of \<open>for duplicate in sorted_group[1:]\<close>.\<close>
definition merge_missing :: "'a product_scheme \<Rightarrow> 'a product_scheme \<Rightarrow> 'a product_scheme" where
  "merge_missing best_product duplicate =
     (let b1 = (if image_url best_product = [] \<and> image_url duplicate \<noteq> []
                then best_product\<lparr>image_url := image_url duplicate\<rparr> else best_product);
          b2 = (if price b1 = [] \<and> price duplicate \<noteq> []
                then b1\<lparr>price := price duplicate\<rparr> else b1);
          b3 = (if lcbo_id b2 = [] \<and> lcbo_id duplicate \<noteq> []
                then b2\<lparr>lcbo_id := lcbo_id duplicate\<rparr> else b2)
      in b3)"

fun merge_rest :: "'a product_scheme \<Rightarrow> 'a product_scheme list \<Rightarrow> 'a product_scheme" where
  "merge_rest best_product [] = best_product"
| "merge_rest best_product (duplicate # rest) =
     merge_rest (merge_missing best_product duplicate) rest"

definition merge_group :: "'a product_scheme list \<Rightarrow> 'a product_scheme" where
  "merge_group duplicate_group =
     (let sorted_group = sort_key merge_key duplicate_group
      in merge_rest (hd sorted_group) (tl sorted_group))"

fun merge_duplicates :: "'a product_scheme list list \<Rightarrow> 'a product_scheme list" where
  "merge_duplicates [] = []"
| "merge_duplicates (duplicate_group # duplicates) =
     (if duplicate_group = [] then merge_duplicates duplicates
      else merge_group duplicate_group # merge_duplicates duplicates)"

text \<open>
  \<open>merge_duplicates\<close> of alcohol_data_integrity.py: the same loop, with the key
  \<open>(source != 'LCBO', not image_url, not price, len(product_name))\<close>.
\<close>

definition integrity_merge_key :: "'a product_scheme \<Rightarrow> bool \<times> bool \<times> bool \<times> nat" where
  "integrity_merge_key p =
     (source p \<noteq> ''LCBO'', image_url p = [], price p = [], length (product_name p))"

definition integrity_merge_group :: "'a product_scheme list \<Rightarrow> 'a product_scheme" where
  "integrity_merge_group duplicate_group =
     (let sorted_group = sort_key integrity_merge_key duplicate_group
      in merge_rest (hd sorted_group) (tl sorted_group))"

fun integrity_merge_duplicates :: "'a product_scheme list list \<Rightarrow> 'a product_scheme list" where
  "integrity_merge_duplicates [] = []"
| "integrity_merge_duplicates (duplicate_group # duplicates) =
     (if duplicate_group = [] then integrity_merge_duplicates duplicates
      else integrity_merge_group duplicate_group # integrity_merge_duplicates duplicates)"


section \<open>Schema Mapper\<close>

text \<open>
  \<open>GoogleSheetsClient.get_column_mapping\<close> (alcohol_sheets_client.py): one
  \<open>if\<close>/\<open>elif\<close> chain per header, the first branch that holds stores the column.
\<close>

definition header_field :: "string \<Rightarrow> string option" where
  "header_field header =
     (let header_lower = str_strip (str_lower header);
          header_clean = replace_char (CHR ''-'') (CHR '' '')
                           (replace_char (CHR ''_'') (CHR '' '') header_lower)
      in if str_contains ''brand'' header_clean
            \<and> (str_contains ''name'' header_clean \<or> header_clean = ''brand'')
         then Some ''brand_name''
         else if str_contains ''product'' header_clean
            \<and> (str_contains ''name'' header_clean \<or> header_clean = ''product'')
         then Some ''product_name''
         else if str_contains ''descriptor'' header_clean then Some ''descriptors''
         else if str_contains ''gluten'' header_clean \<and> str_contains ''score'' header_clean
         then Some ''gluten_free_score''
         else if str_contains ''gluten'' header_clean \<and> str_contains ''free'' header_clean
         then Some ''gluten_free_score''
         else if str_contains ''id'' header_clean \<and> header_clean = ''id'' then Some ''id''
         else if str_contains ''lcbo'' header_clean \<and> str_contains ''id'' header_clean
         then Some ''lcbo_id''
         else if str_contains ''image'' header_clean \<and> str_contains ''url'' header_clean
         then Some ''image_url''
         else if str_contains ''price'' header_clean then Some ''price''
         else if str_contains ''category'' header_clean \<and> \<not> str_contains ''sub'' header_clean
         then Some ''category''
         else if str_contains ''subcategory'' header_clean
            \<or> (str_contains ''sub'' header_clean \<and> str_contains ''category'' header_clean)
         then Some ''subcategory''
         else if str_contains ''source'' header_clean then Some ''source''
         else None)"

text \<open>The loop \<open>for i, header in enumerate(headers)\<close>, from column \<open>i\<close> on.\<close>
fun column_mapping_from ::
  "nat \<Rightarrow> string list \<Rightarrow> (string \<times> nat) list \<Rightarrow> (string \<times> nat) list" where
  "column_mapping_from i [] column_mapping = column_mapping"
| "column_mapping_from i (header # headers) column_mapping =
     column_mapping_from (Suc i) headers
       (case header_field header of
          None \<Rightarrow> column_mapping
        | Some field \<Rightarrow> dict_set field i column_mapping)"

definition get_column_mapping :: "string list \<Rightarrow> (string \<times> nat) list" where
  "get_column_mapping headers = column_mapping_from 0 headers []"


section \<open>Similarity Scorer\<close>

text \<open>
  The scripts score two strings with \<open>difflib.SequenceMatcher(None, a, b).ratio()\<close> of
  the Python standard library. Its algorithm is modelled here as the library has it:
  \<open>__chain_b\<close> (the elements of \<open>b\<close> that are too popular to start a match),
  \<open>find_longest_match\<close>, \<open>get_matching_blocks\<close> and \<open>ratio\<close>. No junk predicate is
  passed (\<open>isjunk = None\<close>), so the junk set is empty and the two junk loops of
  \<open>find_longest_match\<close> do nothing.

  \<open>ratio\<close> is the float \<open>2.0 * M / T\<close>. It is modelled as the exact fraction: the
  thresholds it is compared with are \<open>0.9\<close> and \<open>0.85\<close>, the fraction \<open>2M/T\<close> differs
  from such a threshold by at least \<open>1/(20T)\<close> unless it is equal to it, and an equal
  fraction rounds to the same float as the threshold's literal does.
\<close>

text \<open>
  \<open>__chain_b\<close>: with \<open>autojunk\<close> (the default) and \<open>len(b) >= 200\<close>, an element
  that occurs more than \<open>len(b) // 100 + 1\<close> times in \<open>b\<close> is removed from \<open>b2j\<close>.
\<close>
definition popular :: "string \<Rightarrow> char \<Rightarrow> bool" where
  "popular b c = (200 \<le> length b \<and> length b div 100 + 1 < count_list b c)"

text \<open>
  \<open>newj2len\<close> for one element \<open>x = a[i]\<close>, as the list of its values at the positions
  \<open>j\<close> of \<open>b\<close>, where \<open>0\<close> stands for "no entry": \<open>newj2len[j] = j2len.get(j-1, 0) + 1\<close>
  for the \<open>j\<close> in \<open>b2j[x]\<close>.
\<close>
definition next_j2len :: "(char \<Rightarrow> bool) \<Rightarrow> char \<Rightarrow> string \<Rightarrow> nat list \<Rightarrow> nat list" where
  "next_j2len pop x b j2len =
     map (\<lambda>(y, k). if y = x \<and> \<not> pop y then Suc k else 0) (zip b (0 # j2len))"

text \<open>\<open>if k > bestsize: besti, bestj, bestsize = i-k+1, j-k+1, k\<close>, for \<open>j\<close> ascending.\<close>
fun scan_best :: "nat \<Rightarrow> nat \<Rightarrow> nat list \<Rightarrow> nat \<times> nat \<times> nat \<Rightarrow> nat \<times> nat \<times> nat" where
  "scan_best i j [] best = best"
| "scan_best i j (k # ks) (besti, bestj, bestsize) =
     scan_best i (Suc j) ks
       (if bestsize < k then (Suc i - k, Suc j - k, k) else (besti, bestj, bestsize))"

text \<open>The loop \<open>for i in range(alo, ahi)\<close> over the elements of \<open>a\<close> that are left.\<close>
fun longest_loop ::
  "(char \<Rightarrow> bool) \<Rightarrow> string \<Rightarrow> nat \<Rightarrow> string \<Rightarrow> nat list \<Rightarrow> nat \<times> nat \<times> nat \<Rightarrow> nat \<times> nat \<times> nat" where
  "longest_loop pop b i [] j2len best = best"
| "longest_loop pop b i (x # a) j2len best =
     (let newj2len = next_j2len pop x b j2len
      in longest_loop pop b (Suc i) a newj2len (scan_best i 0 newj2len best))"

text \<open>The first \<open>while\<close> loop: the block grows to the left while the elements agree.\<close>
fun extend_left :: "string \<Rightarrow> string \<Rightarrow> nat \<Rightarrow> nat \<Rightarrow> nat \<Rightarrow> nat \<times> nat \<times> nat" where
  "extend_left a b (Suc i) (Suc j) k =
     (if a ! i = b ! j then extend_left a b i j (Suc k) else (Suc i, Suc j, k))"
| "extend_left a b i j k = (i, j, k)"

text \<open>The second \<open>while\<close> loop: the block grows to the right while the elements agree.\<close>
function extend_right :: "string \<Rightarrow> string \<Rightarrow> nat \<Rightarrow> nat \<Rightarrow> nat \<Rightarrow> nat \<times> nat \<times> nat" where
  "extend_right a b i j k =
     (if i + k < length a \<and> j + k < length b \<and> a ! (i + k) = b ! (j + k)
      then extend_right a b i j (Suc k) else (i, j, k))"
  by pat_completeness auto
termination
  by (relation "measure (\<lambda>(a, b, i, j, k). length a - (i + k))") auto

declare extend_right.simps [simp del]

text \<open>
  \<open>find_longest_match(alo, ahi, blo, bhi)\<close> on the slices \<open>a[alo:ahi]\<close> and
  \<open>b[blo:bhi]\<close>, which are the arguments here; the result is relative to the slices.
\<close>
definition find_longest_match :: "(char \<Rightarrow> bool) \<Rightarrow> string \<Rightarrow> string \<Rightarrow> nat \<times> nat \<times> nat" where
  "find_longest_match pop a b =
     (case longest_loop pop b 0 a (replicate (length b) 0) (0, 0, 0) of
        (besti, bestj, bestsize) \<Rightarrow>
          (case extend_left a b besti bestj bestsize of
             (besti, bestj, bestsize) \<Rightarrow> extend_right a b besti bestj bestsize))"

text \<open>
  A block \<open>(i, j, k)\<close> is a match of \<open>a\<close> and \<open>b\<close> when \<open>a[i:i+k] = b[j:j+k]\<close>.
  \<open>find_longest_match\<close> returns a match; the loop of \<open>get_matching_blocks\<close> needs
  that to terminate.
\<close>

definition block_ok :: "string \<Rightarrow> string \<Rightarrow> nat \<times> nat \<times> nat \<Rightarrow> bool" where
  "block_ok a b m = (case m of (i, j, k) \<Rightarrow>
     i + k \<le> length a \<and> j + k \<le> length b \<and> take k (drop i a) = take k (drop j b))"

fun common_prefix_len :: "(char \<Rightarrow> bool) \<Rightarrow> string \<Rightarrow> string \<Rightarrow> nat" where
  "common_prefix_len pop (x # xs) (y # ys) =
     (if y = x \<and> \<not> pop y then Suc (common_prefix_len pop xs ys) else 0)"
| "common_prefix_len pop xs ys = 0"

definition common_suffix_len :: "(char \<Rightarrow> bool) \<Rightarrow> string \<Rightarrow> string \<Rightarrow> nat" where
  "common_suffix_len pop xs ys = common_prefix_len pop (rev xs) (rev ys)"

lemma common_prefix_len_take:
  "common_prefix_len pop xs ys \<le> length xs \<and> common_prefix_len pop xs ys \<le> length ys
   \<and> take (common_prefix_len pop xs ys) xs = take (common_prefix_len pop xs ys) ys"
  by (induction pop xs ys rule: common_prefix_len.induct) auto

lemma common_suffix_len_snoc:
  "common_suffix_len pop (xs @ [x]) (ys @ [y]) =
     (if y = x \<and> \<not> pop y then Suc (common_suffix_len pop xs ys) else 0)"
  by (auto simp add: common_suffix_len_def)

lemma common_suffix_len_Nil [simp]:
  "common_suffix_len pop xs [] = 0" "common_suffix_len pop [] ys = 0"
  by (simp_all add: common_suffix_len_def)

lemma common_suffix_len_drop:
  "common_suffix_len pop xs ys \<le> length xs \<and> common_suffix_len pop xs ys \<le> length ys
   \<and> drop (length xs - common_suffix_len pop xs ys) xs
       = drop (length ys - common_suffix_len pop xs ys) ys"
proof -
  let ?k = "common_suffix_len pop xs ys"
  have h: "?k \<le> length (rev xs) \<and> ?k \<le> length (rev ys) \<and> take ?k (rev xs) = take ?k (rev ys)"
    unfolding common_suffix_len_def by (rule common_prefix_len_take)
  then have "rev (take ?k (rev xs)) = rev (take ?k (rev ys))" by simp
  then have "drop (length xs - ?k) xs = drop (length ys - ?k) ys"
    by (simp add: rev_take)
  with h show ?thesis by simp
qed

definition row_of :: "(char \<Rightarrow> bool) \<Rightarrow> string \<Rightarrow> string \<Rightarrow> nat list" where
  "row_of pop done b = map (\<lambda>j. common_suffix_len pop done (take (Suc j) b)) [0..<length b]"

lemma row_of_Nil: "row_of pop [] b = replicate (length b) 0"
  by (simp add: row_of_def map_replicate_const)

lemma next_j2len_row_of:
  "next_j2len pop x b (row_of pop done b) = row_of pop (done @ [x]) b"
proof (rule nth_equalityI)
  show "length (next_j2len pop x b (row_of pop done b)) = length (row_of pop (done @ [x]) b)"
    by (simp add: next_j2len_def row_of_def)
next
  fix j assume "j < length (next_j2len pop x b (row_of pop done b))"
  then have j: "j < length b" by (simp add: next_j2len_def row_of_def)
  have prev: "(0 # row_of pop done b) ! j = common_suffix_len pop done (take j b)"
    using j by (cases j) (simp_all add: row_of_def)
  have "next_j2len pop x b (row_of pop done b) ! j
        = (if b ! j = x \<and> \<not> pop (b ! j) then Suc (common_suffix_len pop done (take j b)) else 0)"
    using j prev by (simp add: next_j2len_def row_of_def)
  also have "\<dots> = common_suffix_len pop (done @ [x]) (take j b @ [b ! j])"
    by (simp add: common_suffix_len_snoc)
  also have "\<dots> = row_of pop (done @ [x]) b ! j"
    using j by (simp add: row_of_def take_Suc_conv_app_nth)
  finally show "next_j2len pop x b (row_of pop done b) ! j = row_of pop (done @ [x]) b ! j" .
qed

lemma scan_best_cases:
  "P best \<Longrightarrow> (\<And>m. m < length ks \<Longrightarrow> P (Suc i - ks ! m, Suc (j + m) - ks ! m, ks ! m))
   \<Longrightarrow> P (scan_best i j ks best)"
proof (induction ks arbitrary: j best)
  case Nil
  then show ?case by simp
next
  case (Cons k ks)
  obtain bi bj bk where best: "best = (bi, bj, bk)" by (cases best)
  have hd: "P (Suc i - k, Suc j - k, k)" using Cons.prems(2)[of 0] by simp
  have tl: "\<And>m. m < length ks \<Longrightarrow> P (Suc i - ks ! m, Suc (Suc j + m) - ks ! m, ks ! m)"
    using Cons.prems(2)[of "Suc m" for m] by simp
  show ?case
    unfolding best scan_best.simps
    by (rule Cons.IH) (use hd tl Cons.prems(1) best in auto)
qed

lemma take_drop_suffix:
  "k \<le> length d \<Longrightarrow> take k (drop (length d - k) (d @ rest)) = drop (length d - k) d"
  by simp

lemma row_entry_block_ok:
  assumes "j < length b"
  shows "block_ok (done @ [x] @ rest) b
           (Suc (length done) - row_of pop (done @ [x]) b ! j,
            Suc j - row_of pop (done @ [x]) b ! j,
            row_of pop (done @ [x]) b ! j)"
proof -
  let ?d = "done @ [x]"
  let ?k = "common_suffix_len pop ?d (take (Suc j) b)"
  have k: "row_of pop ?d b ! j = ?k" using assms by (simp add: row_of_def)
  have h: "?k \<le> length ?d" "?k \<le> length (take (Suc j) b)"
    "drop (length ?d - ?k) ?d = drop (length (take (Suc j) b) - ?k) (take (Suc j) b)"
    using common_suffix_len_drop[of pop ?d "take (Suc j) b"] by auto
  have lj: "length (take (Suc j) b) = Suc j" using assms by simp
  have "take ?k (drop (length ?d - ?k) (?d @ rest)) = drop (length ?d - ?k) ?d"
    using h(1) by (rule take_drop_suffix)
  then have a: "take ?k (drop (Suc (length done) - ?k) (done @ [x] @ rest)) = drop (length ?d - ?k) ?d"
    by simp
  have b: "take ?k (drop (Suc j - ?k) b) = drop (Suc j - ?k) (take (Suc j) b)"
    using h(2) lj by (simp add: drop_take)
  show ?thesis
    unfolding k block_ok_def using a b h lj by simp
qed

lemma longest_loop_block_ok:
  "block_ok (done @ rest) b best \<Longrightarrow>
   block_ok (done @ rest) b (longest_loop pop b (length done) rest (row_of pop done b) best)"
proof (induction rest arbitrary: "done" best)
  case Nil
  then show ?case by simp
next
  case (Cons x rest)
  have step: "block_ok (done @ x # rest) b
                (scan_best (length done) 0 (row_of pop (done @ [x]) b) best)"
  proof (rule scan_best_cases)
    show "block_ok (done @ x # rest) b best" by (rule Cons.prems)
  next
    fix m assume "m < length (row_of pop (done @ [x]) b)"
    then have "m < length b" by (simp add: row_of_def)
    from row_entry_block_ok[OF this, of "done" x rest pop]
    show "block_ok (done @ x # rest) b
            (Suc (length done) - row_of pop (done @ [x]) b ! m,
             Suc (0 + m) - row_of pop (done @ [x]) b ! m, row_of pop (done @ [x]) b ! m)"
      by simp
  qed
  have "block_ok ((done @ [x]) @ rest) b
          (longest_loop pop b (length (done @ [x])) rest (row_of pop (done @ [x]) b)
             (scan_best (length done) 0 (row_of pop (done @ [x]) b) best))"
    by (rule Cons.IH) (use step in simp)
  then show ?case by (simp add: next_j2len_row_of Let_def)
qed

lemma extend_left_block_ok:
  "block_ok a b (i, j, k) \<Longrightarrow> block_ok a b (extend_left a b i j k)"
proof (induction a b i j k rule: extend_left.induct)
  case (1 a b i j k)
  show ?case
  proof (cases "a ! i = b ! j")
    case True
    have "i < length a" "j < length b" using "1.prems" by (auto simp: block_ok_def)
    then have "take (Suc k) (drop i a) = a ! i # take k (drop (Suc i) a)"
      "take (Suc k) (drop j b) = b ! j # take k (drop (Suc j) b)"
      by (simp_all flip: Cons_nth_drop_Suc)
    then have "block_ok a b (i, j, Suc k)"
      using "1.prems" True by (auto simp: block_ok_def)
    then show ?thesis using "1.IH" True by simp
  next
    case False
    then show ?thesis using "1.prems" by simp
  qed
qed simp_all

lemma extend_right_block_ok:
  "block_ok a b (i, j, k) \<Longrightarrow> block_ok a b (extend_right a b i j k)"
proof (induction a b i j k rule: extend_right.induct)
  case (1 a b i j k)
  show ?case
  proof (cases "i + k < length a \<and> j + k < length b \<and> a ! (i + k) = b ! (j + k)")
    case True
    then have "k < length (drop i a)" "k < length (drop j b)" by auto
    then have "take (Suc k) (drop i a) = take k (drop i a) @ [drop i a ! k]"
      "take (Suc k) (drop j b) = take k (drop j b) @ [drop j b ! k]"
      by (simp_all only: take_Suc_conv_app_nth)
    then have "take (Suc k) (drop i a) = take k (drop i a) @ [a ! (i + k)]"
      "take (Suc k) (drop j b) = take k (drop j b) @ [b ! (j + k)]"
      using True by simp_all
    then have "block_ok a b (i, j, Suc k)"
      using "1.prems" True by (auto simp: block_ok_def)
    then show ?thesis using "1.IH" True by (subst extend_right.simps) simp
  next
    case False
    then show ?thesis using "1.prems" by (subst extend_right.simps) auto
  qed
qed

lemma find_longest_match_block_ok: "block_ok a b (find_longest_match pop a b)"
proof -
  have "block_ok ([] @ a) b (longest_loop pop b (length ([]::string)) a (row_of pop [] b) (0, 0, 0))"
    by (rule longest_loop_block_ok) (simp add: block_ok_def)
  then have "block_ok a b (longest_loop pop b 0 a (replicate (length b) 0) (0, 0, 0))"
    by (simp add: row_of_Nil)
  then show ?thesis
    unfolding find_longest_match_def
    by (auto split: prod.splits intro!: extend_right_block_ok dest!: extend_left_block_ok)
qed

lemma find_longest_match_bounds:
  "find_longest_match pop a b = (i, j, k) \<Longrightarrow> i + k \<le> length a \<and> j + k \<le> length b"
  using find_longest_match_block_ok[of a b pop] by (simp add: block_ok_def)

text \<open>
  \<open>get_matching_blocks\<close> pops a pair of slices, finds its longest match and, when the
  match is not empty, pushes the slices to its left and to its right. \<open>ratio\<close> uses
  the sum of the sizes of the blocks only, which \<open>matching_size\<close> computes.
\<close>
function matching_size :: "(char \<Rightarrow> bool) \<Rightarrow> string \<Rightarrow> string \<Rightarrow> nat" where
  "matching_size pop a b =
     (case find_longest_match pop a b of
        (i, j, k) \<Rightarrow>
          if k = 0 then 0
          else k + (if 0 < i \<and> 0 < j then matching_size pop (take i a) (take j b) else 0)
                 + (if i + k < length a \<and> j + k < length b
                    then matching_size pop (drop (i + k) a) (drop (j + k) b) else 0))"
  by pat_completeness auto
termination
proof (relation "measure (\<lambda>(pop, a, b). length a)")
  show "wf (measure (\<lambda>(pop, a, b). length a))" by simp
next
  fix pop a b x i y j k
  assume "(i, y) = find_longest_match pop a b" "(j, k) = y" "k \<noteq> 0"
  then have "find_longest_match pop a b = (i, j, k)" by simp
  from find_longest_match_bounds[OF this] \<open>k \<noteq> 0\<close>
  show "((pop, take i a, take j b), pop, a, b) \<in> measure (\<lambda>(pop, a, b). length a)"
    by simp
next
  fix pop a b x i y j k
  assume "(i, y) = find_longest_match pop a b" "(j, k) = y" "k \<noteq> 0"
    "i + k < length a \<and> j + k < length b"
  then have "0 < i + k" "i + k < length a" by auto
  then have "length a - (i + k) < length a" by arith
  then show "((pop, drop (i + k) a, drop (j + k) b), pop, a, b) \<in> measure (\<lambda>(pop, a, b). length a)"
    by simp
qed

declare matching_size.simps [simp del]

text \<open>\<open>ratio()\<close> with \<open>_calculate_ratio\<close>: \<open>2.0 * matches / length\<close>, or \<open>1.0\<close> when \<open>length\<close> is \<open>0\<close>.\<close>
definition ratio :: "string \<Rightarrow> string \<Rightarrow> rat" where
  "ratio a b =
     (let matches = matching_size (popular b) a b;
          len = length a + length b
      in if len \<noteq> 0 then 2 * of_nat matches / of_nat len else 1)"



section \<open>Configuration\<close>

text \<open>
  \<open>CONFIG\<close> of alcohol_data_config.py, the entries the engine reads. The functions
  below take the configuration as an argument; \<open>CONFIG\<close> holds the shipped values.
\<close>

record config =
  similarity_threshold :: rat
  fuzzy_match_threshold :: rat
  fuzzy_match_fields :: "string list"

definition CONFIG :: config where
  "CONFIG = \<lparr>similarity_threshold = 9 / 10, fuzzy_match_threshold = 17 / 20,
             fuzzy_match_fields = [''brand_name'', ''product_name'']\<rparr>"

definition SUBCATEGORY_NORMALIZATIONS :: "(string \<times> string) list" where
  "SUBCATEGORY_NORMALIZATIONS =
    [(''Gift And Sampler'', ''Gifts and Samplers''),
     (''Gift and Sampler'', ''Gifts and Samplers''),
     (''Gifts And Sampler'', ''Gifts and Samplers''),
     (''Gift & Sampler'', ''Gifts and Samplers''),
     (''Gifts & Sampler'', ''Gifts and Samplers''),
     (''Gift and Samplers'', ''Gifts and Samplers''),
     (''Gift And Samplers'', ''Gifts and Samplers''),
     (''Beer & Cider'', ''Beer''),
     (''Beer and Cider'', ''Beer''),
     (''Beer & Ciders'', ''Beer''),
     (''Beer and Ciders'', ''Beer''),
     (''Red Wine'', ''Red Wines''),
     (''White Wine'', ''White Wines''),
     (''Rose Wine'', ''Rose Wines''),
     (''Sparkling Wine'', ''Sparkling Wines''),
     (''Dessert Wine'', ''Dessert Wines''),
     (''Fortified Wine'', ''Fortified Wines''),
     (''Whisky'', ''Whiskey''),
     (''Whiskey'', ''Whiskey''),
     (''Scotch'', ''Scotch Whisky''),
     (''Scotch Whiskey'', ''Scotch Whisky''),
     (''Bourbon'', ''Bourbon Whiskey''),
     (''Bourbon Whisky'', ''Bourbon Whiskey''),
     (''Rye'', ''Rye Whiskey''),
     (''Rye Whisky'', ''Rye Whiskey''),
     (''Canadian Whisky'', ''Canadian Whiskey''),
     (''Canadian Whiskey'', ''Canadian Whiskey''),
     (''Vodka'', ''Vodka''),
     (''Flavoured Vodka'', ''Flavored Vodka''),
     (''Flavored Vodka'', ''Flavored Vodka''),
     (''Gin'', ''Gin''),
     (''London Dry Gin'', ''London Dry Gin''),
     (''Plymouth Gin'', ''Plymouth Gin''),
     (''Rum'', ''Rum''),
     (''White Rum'', ''White Rum''),
     (''Dark Rum'', ''Dark Rum''),
     (''Spiced Rum'', ''Spiced Rum''),
     (''Gold Rum'', ''Gold Rum''),
     (''Aged Rum'', ''Aged Rum''),
     (''Tequila'', ''Tequila''),
     (''Blanco Tequila'', ''Blanco Tequila''),
     (''Reposado Tequila'', ''Reposado Tequila''),
     (''Anejo Tequila'', ''Anejo Tequila''),
     (''Mezcal'', ''Mezcal''),
     (''Liqueur'', ''Liqueur''),
     (''Liqueurs'', ''Liqueur''),
     (''Cream Liqueur'', ''Cream Liqueur''),
     (''Cream Liqueurs'', ''Cream Liqueur''),
     (''Coffee Liqueur'', ''Coffee Liqueur''),
     (''Coffee Liqueurs'', ''Coffee Liqueur''),
     (''Herbal Liqueur'', ''Herbal Liqueur''),
     (''Herbal Liqueurs'', ''Herbal Liqueur''),
     (''Fruit Liqueur'', ''Fruit Liqueur''),
     (''Fruit Liqueurs'', ''Fruit Liqueur''),
     (''Brandy'', ''Brandy''),
     (''Cognac'', ''Cognac''),
     (''Armagnac'', ''Armagnac''),
     (''Pisco'', ''Pisco''),
     (''Aperitif'', ''Aperitif''),
     (''Aperitifs'', ''Aperitif''),
     (''Digestif'', ''Digestif''),
     (''Digestifs'', ''Digestif''),
     (''Vermouth'', ''Vermouth''),
     (''Bitters'', ''Bitters''),
     (''Absinthe'', ''Absinthe''),
     (''Sake'', ''Sake''),
     (''Soju'', ''Soju''),
     (''Baijiu'', ''Baijiu'')]"

datatype py_error = IndexError | ValueError


section \<open>Normalizer\<close>

text \<open>
  The loop of \<open>normalize_subcategory\<close> over \<open>SUBCATEGORY_NORMALIZATIONS.items()\<close>,
  which returns at the first entry whose key is close to the cleaned input; \<open>None\<close>
  when the loop finishes.
\<close>
fun close_subcategory :: "string \<Rightarrow> (string \<times> string) list \<Rightarrow> string option" where
  "close_subcategory cleaned [] = None"
| "close_subcategory cleaned ((original, normalized) # items) =
     (if 9 / 10 < ratio (str_lower cleaned) (str_lower original) then Some normalized
      else close_subcategory cleaned items)"

text \<open>\<open>AlcoholDataProcessor.normalize_subcategory\<close>\<close>
definition normalize_subcategory :: "string \<Rightarrow> string" where
  "normalize_subcategory subcategory' =
     (if subcategory' = [] then []
      else let cleaned = str_strip subcategory'
           in case map_of SUBCATEGORY_NORMALIZATIONS cleaned of
                Some normalized \<Rightarrow> normalized
              | None \<Rightarrow>
                  (case close_subcategory cleaned SUBCATEGORY_NORMALIZATIONS of
                     Some normalized \<Rightarrow> normalized
                   | None \<Rightarrow> cleaned))"

text \<open>
  \<open>score_brand\<close> inside \<open>choose_best_brand_name\<close>. \<open>brand[0]\<close> raises \<open>IndexError\<close> on
  the empty string, which is not upper-case, so the \<open>elif\<close> is reached.
\<close>
definition score_brand :: "string \<Rightarrow> py_error + int" where
  "score_brand brand =
     (let score = (if CHR 0x27 \<in> set brand then 10 else 0)
      in case (if str_isupper brand then Inr (score - 5)
               else case brand of
                      [] \<Rightarrow> Inl IndexError
                    | c # cs \<Rightarrow>
                        Inr (if is_upper_char c \<and> \<not> str_isupper brand then score + 5 else score)) of
           Inl e \<Rightarrow> Inl e
         | Inr score \<Rightarrow>
             Inr (score - int (length (str_split brand)) - int (str_count brand ''  '')))"

text \<open>\<open>[(brand, score_brand(brand)) for brand in alternatives]\<close>\<close>
fun scored_alternatives :: "string list \<Rightarrow> py_error + (string \<times> int) list" where
  "scored_alternatives [] = Inr []"
| "scored_alternatives (brand # alternatives) =
     (case score_brand brand of
        Inl e \<Rightarrow> Inl e
      | Inr score \<Rightarrow>
          (case scored_alternatives alternatives of
             Inl e \<Rightarrow> Inl e
           | Inr scored \<Rightarrow> Inr ((brand, score) # scored)))"

text \<open>\<open>max(..., key=lambda x: x[1])\<close>: an element replaces the best so far only with a
  strictly greater key.\<close>
fun max_by_score :: "string \<times> int \<Rightarrow> (string \<times> int) list \<Rightarrow> string \<times> int" where
  "max_by_score best [] = best"
| "max_by_score best (x # xs) = max_by_score (if snd best < snd x then x else best) xs"

definition choose_best_brand_name :: "string list \<Rightarrow> py_error + string" where
  "choose_best_brand_name alternatives =
     (if alternatives = [] then Inr []
      else case scored_alternatives alternatives of
             Inl e \<Rightarrow> Inl e
           | Inr scored \<Rightarrow> Inr (fst (max_by_score (hd scored) (tl scored))))"

text \<open>\<open>AlcoholDataProcessor.normalize_brand_alternatives\<close>: the key of a brand's group.\<close>
definition brand_group_key :: "string \<Rightarrow> string" where
  "brand_group_key brand_name' =
     remove_char (CHR 0x22) (remove_char (CHR 0x22)
       (remove_char (CHR 0x27) (remove_char (CHR 0x27) (str_lower brand_name'))))"

text \<open>The first loop: \<open>brand_groups[normalized].append(brand_name)\<close>.\<close>
fun brand_groups_of ::
  "'a product_scheme list \<Rightarrow> (string \<times> string list) list \<Rightarrow> (string \<times> string list) list" where
  "brand_groups_of [] brand_groups = brand_groups"
| "brand_groups_of (product # products) brand_groups =
     brand_groups_of products
       (if brand_name product \<noteq> []
        then dict_append (brand_group_key (brand_name product)) (brand_name product) brand_groups
        else brand_groups)"

text \<open>\<open>for alternative in alternatives: if alternative != best_brand: ...\<close>\<close>
fun map_alternatives ::
  "string \<Rightarrow> string list \<Rightarrow> (string \<times> string) list \<Rightarrow> (string \<times> string) list" where
  "map_alternatives best_brand [] brand_mapping = brand_mapping"
| "map_alternatives best_brand (alternative # alternatives) brand_mapping =
     map_alternatives best_brand alternatives
       (if alternative \<noteq> best_brand then dict_set alternative best_brand brand_mapping
        else brand_mapping)"

text \<open>The second loop, over \<open>brand_groups.items()\<close>.\<close>
fun brand_mapping_of ::
  "(string \<times> string list) list \<Rightarrow> (string \<times> string) list \<Rightarrow> py_error + (string \<times> string) list" where
  "brand_mapping_of [] brand_mapping = Inr brand_mapping"
| "brand_mapping_of ((normalized, alternatives) # brand_groups) brand_mapping =
     (if 1 < length alternatives
      then case choose_best_brand_name alternatives of
             Inl e \<Rightarrow> Inl e
           | Inr best_brand \<Rightarrow>
               brand_mapping_of brand_groups
                 (map_alternatives best_brand alternatives brand_mapping)
      else brand_mapping_of brand_groups brand_mapping)"

text \<open>The body of the third loop.\<close>
definition apply_brand_mapping ::
  "(string \<times> string) list \<Rightarrow> 'a product_scheme \<Rightarrow> 'a product_scheme" where
  "apply_brand_mapping brand_mapping product =
     (case map_of brand_mapping (brand_name product) of
        Some best_brand \<Rightarrow> product\<lparr>brand_name := best_brand\<rparr>
      | None \<Rightarrow> product)"

definition normalize_brand_alternatives ::
  "'a product_scheme list \<Rightarrow> py_error + 'a product_scheme list" where
  "normalize_brand_alternatives products =
     (case brand_mapping_of (brand_groups_of products []) [] of
        Inl e \<Rightarrow> Inl e
      | Inr brand_mapping \<Rightarrow> Inr (map (apply_brand_mapping brand_mapping) products))"


section \<open>Duplicate Grouper\<close>

text \<open>
  \<open>AlcoholDataProcessor.find_exact_duplicates\<close>. The first loop fills
  \<open>duplicate_groups\<close>, the second keeps the groups with more than one product.
\<close>

fun duplicate_groups_of ::
  "'a product_scheme list \<Rightarrow> (string \<times> 'a product_scheme list) list
   \<Rightarrow> (string \<times> 'a product_scheme list) list" where
  "duplicate_groups_of [] duplicate_groups = duplicate_groups"
| "duplicate_groups_of (product # products) duplicate_groups =
     (let brand_name' = str_lower (str_strip (brand_name product));
          product_name' = str_lower (str_strip (product_name product))
      in duplicate_groups_of products
           (if brand_name' \<noteq> [] \<and> product_name' \<noteq> []
            then dict_append (brand_name' @ ''|'' @ product_name') product duplicate_groups
            else duplicate_groups))"

fun exact_duplicates_of :: "(string \<times> 'a list) list \<Rightarrow> 'a list list" where
  "exact_duplicates_of [] = []"
| "exact_duplicates_of ((key, product_group) # duplicate_groups) =
     (if 1 < length product_group
      then product_group # exact_duplicates_of duplicate_groups
      else exact_duplicates_of duplicate_groups)"

definition find_exact_duplicates :: "'a product_scheme list \<Rightarrow> 'a product_scheme list list" where
  "find_exact_duplicates products = exact_duplicates_of (duplicate_groups_of products [])"

text \<open>
  \<open>AlcoholDataProcessor.find_duplicates\<close>, the fuzzy branch (\<open>find_duplicates\<close> of
  alcohol_data_integrity.py is the same code without the exact branch). The first loop
  fills \<open>brand_groups\<close>.
\<close>

fun brand_buckets_of ::
  "'a product_scheme list \<Rightarrow> (string \<times> 'a product_scheme list) list
   \<Rightarrow> (string \<times> 'a product_scheme list) list" where
  "brand_buckets_of [] brand_groups = brand_groups"
| "brand_buckets_of (product # products) brand_groups =
     brand_buckets_of products
       (dict_append (str_lower (brand_name product)) product brand_groups)"

text \<open>
  The inner loop \<open>for j, product2 in enumerate(brand_products[i+1:], i+1)\<close>, from
  position \<open>j\<close> on: it returns \<open>similar_products\<close> and \<open>processed\<close>.
\<close>
fun similar_sweep ::
  "config \<Rightarrow> 'a product_scheme \<Rightarrow> nat \<Rightarrow> 'a product_scheme list \<Rightarrow> nat set
   \<Rightarrow> 'a product_scheme list \<Rightarrow> 'a product_scheme list \<times> nat set" where
  "similar_sweep cfg product1 j [] processed similar_products = (similar_products, processed)"
| "similar_sweep cfg product1 j (product2 # rest) processed similar_products =
     (if j \<in> processed then similar_sweep cfg product1 (Suc j) rest processed similar_products
      else let product1_name = str_lower (product_name product1);
               product2_name = str_lower (product_name product2)
           in if product1_name \<noteq> [] \<and> product2_name \<noteq> []
                 \<and> similarity_threshold cfg \<le> ratio product1_name product2_name
              then similar_sweep cfg product1 (Suc j) rest (insert j processed)
                     (similar_products @ [product2])
              else similar_sweep cfg product1 (Suc j) rest processed similar_products)"

text \<open>The outer loop \<open>for i, product1 in enumerate(brand_products)\<close>, from position \<open>i\<close> on.\<close>
fun bucket_sweep ::
  "config \<Rightarrow> nat \<Rightarrow> 'a product_scheme list \<Rightarrow> nat set \<Rightarrow> 'a product_scheme list list" where
  "bucket_sweep cfg i [] processed = []"
| "bucket_sweep cfg i (product1 # rest) processed =
     (if i \<in> processed then bucket_sweep cfg (Suc i) rest processed
      else case similar_sweep cfg product1 (Suc i) rest processed [product1] of
             (similar_products, processed') \<Rightarrow>
               if 1 < length similar_products
               then similar_products # bucket_sweep cfg (Suc i) rest (insert i processed')
               else bucket_sweep cfg (Suc i) rest processed')"

text \<open>The loop over \<open>brand_groups.items()\<close>.\<close>
fun fuzzy_duplicates_of ::
  "config \<Rightarrow> (string \<times> 'a product_scheme list) list \<Rightarrow> 'a product_scheme list list" where
  "fuzzy_duplicates_of cfg [] = []"
| "fuzzy_duplicates_of cfg ((brand, brand_products) # brand_groups) =
     (if length brand_products \<le> 1 then fuzzy_duplicates_of cfg brand_groups
      else bucket_sweep cfg 0 brand_products {} @ fuzzy_duplicates_of cfg brand_groups)"

definition find_duplicates ::
  "config \<Rightarrow> 'a product_scheme list \<Rightarrow> bool \<Rightarrow> 'a product_scheme list list" where
  "find_duplicates cfg products use_exact_matching =
     (if use_exact_matching then find_exact_duplicates products
      else fuzzy_duplicates_of cfg (brand_buckets_of products []))"


section \<open>Cross-Dataset Reconciler\<close>

text \<open>\<open>AlcoholBackupRestorer.calculate_similarity\<close>\<close>
definition calculate_similarity :: "string \<Rightarrow> string \<Rightarrow> rat" where
  "calculate_similarity str1 str2 =
     (if str1 = [] \<or> str2 = [] then 0
      else let str1_norm = str_strip (str_lower str1);
               str2_norm = str_strip (str_lower str2)
           in if str1_norm = str2_norm then 1 else ratio str1_norm str2_norm)"

text \<open>\<open>product.get(field, '')\<close> for a field given by its name.\<close>
definition product_get :: "string \<Rightarrow> 'a product_scheme \<Rightarrow> string" where
  "product_get field p =
     (if field = ''id'' then product_id p
      else if field = ''lcbo_id'' then lcbo_id p
      else if field = ''brand_name'' then brand_name p
      else if field = ''product_name'' then product_name p
      else if field = ''category'' then category p
      else if field = ''subcategory'' then subcategory p
      else if field = ''price'' then price p
      else if field = ''image_url'' then image_url p
      else if field = ''source'' then source p
      else if field = ''descriptors'' then descriptors p
      else if field = ''gluten_free_score'' then gluten_free_score p
      else [])"

text \<open>\<open>product[field] = value\<close> for a field given by its name.\<close>
definition product_put :: "string \<Rightarrow> string \<Rightarrow> 'a product_scheme \<Rightarrow> 'a product_scheme" where
  "product_put field v p =
     (if field = ''id'' then p\<lparr>product_id := v\<rparr>
      else if field = ''lcbo_id'' then p\<lparr>lcbo_id := v\<rparr>
      else if field = ''brand_name'' then p\<lparr>brand_name := v\<rparr>
      else if field = ''product_name'' then p\<lparr>product_name := v\<rparr>
      else if field = ''category'' then p\<lparr>category := v\<rparr>
      else if field = ''subcategory'' then p\<lparr>subcategory := v\<rparr>
      else if field = ''price'' then p\<lparr>price := v\<rparr>
      else if field = ''image_url'' then p\<lparr>image_url := v\<rparr>
      else if field = ''source'' then p\<lparr>source := v\<rparr>
      else if field = ''descriptors'' then p\<lparr>descriptors := v\<rparr>
      else if field = ''gluten_free_score'' then p\<lparr>gluten_free_score := v\<rparr>
      else p)"

text \<open>
  The scores of \<open>find_best_match\<close> are Python floats, and the mean of the field
  similarities is computed in float arithmetic, which rounds. The float arithmetic is
  not modelled: a score is a value of a linearly ordered type \<open>'f\<close>, and the two places
  where the reconciler makes a float are parameters of the model, \<open>to_float\<close> for the
  float of a literal (\<open>0.0\<close>, the threshold) and \<open>float_mean\<close> for
  \<open>sum(field_scores) / len(field_scores)\<close> on the floats of the field similarities.
  What is proved of the reconciler holds for every choice of the two.
\<close>
record 'f float_ops =
  to_float :: "rat \<Rightarrow> 'f"
  float_mean :: "rat list \<Rightarrow> 'f"

text \<open>The float operations without rounding, for the evaluation of examples.\<close>
definition exact_floats :: "rat float_ops" where
  "exact_floats = \<lparr>to_float = (\<lambda>x. x),
                    float_mean = (\<lambda>xs. sum_list xs / of_nat (length xs))\<rparr>"

text \<open>
  \<open>avg_score\<close> in \<open>find_best_match\<close>: the mean of the similarities of the fields of
  \<open>CONFIG["fuzzy_match_fields"]\<close>, or \<open>0.0\<close> when there is no field.
\<close>
definition avg_score ::
  "'f float_ops \<Rightarrow> config \<Rightarrow> 'a product_scheme \<Rightarrow> 'b product_scheme \<Rightarrow> 'f" where
  "avg_score fl cfg current_product backup_product =
     (let field_scores =
            map (\<lambda>field. calculate_similarity (product_get field current_product)
                                               (product_get field backup_product))
                (fuzzy_match_fields cfg)
      in if field_scores \<noteq> [] then float_mean fl field_scores else to_float fl 0)"

text \<open>The loop of \<open>find_best_match\<close>, on the state \<open>(best_match, best_score)\<close>.\<close>
fun best_match_loop ::
  "('f::linorder) float_ops \<Rightarrow> config \<Rightarrow> 'a product_scheme \<Rightarrow> 'b product_scheme list
   \<Rightarrow> 'b product_scheme option \<times> 'f \<Rightarrow> 'b product_scheme option \<times> 'f" where
  "best_match_loop fl cfg current_product [] best = best"
| "best_match_loop fl cfg current_product (backup_product # backup_products)
       (best_match, best_score) =
     (let avg = avg_score fl cfg current_product backup_product
      in best_match_loop fl cfg current_product backup_products
           (if best_score < avg \<and> to_float fl (fuzzy_match_threshold cfg) \<le> avg
            then (Some backup_product, avg) else (best_match, best_score)))"

text \<open>\<open>AlcoholBackupRestorer.find_best_match\<close>\<close>
definition find_best_match ::
  "('f::linorder) float_ops \<Rightarrow> config \<Rightarrow> 'a product_scheme \<Rightarrow> 'b product_scheme list
   \<Rightarrow> 'b product_scheme option \<times> 'f" where
  "find_best_match fl cfg current_product backup_products =
     best_match_loop fl cfg current_product backup_products (None, to_float fl 0)"

text \<open>
  The body of the loop over \<open>current_products\<close> in \<open>restore_from_backup\<close>. A backup
  product is a dictionary with a key for every mapped column, so it is true in
  \<open>if best_match and ...\<close> whenever it is not \<open>None\<close>.
\<close>
definition restore_product ::
  "('f::linorder) float_ops \<Rightarrow> config \<Rightarrow> 'b product_scheme list \<Rightarrow> 'a product_scheme
   \<Rightarrow> 'a product_scheme" where
  "restore_product fl cfg backup_products current_product =
     (case find_best_match fl cfg current_product backup_products of
        (None, score) \<Rightarrow> current_product
      | (Some best_match, score) \<Rightarrow>
          if to_float fl (fuzzy_match_threshold cfg) \<le> score
          then let c1 = (if gluten_free_score best_match \<noteq> []
                            \<and> str_strip (gluten_free_score best_match) \<noteq> []
                         then current_product\<lparr>gluten_free_score := gluten_free_score best_match\<rparr>
                         else current_product);
                   c2 = (if descriptors best_match \<noteq> []
                            \<and> str_strip (descriptors best_match) \<noteq> []
                         then c1\<lparr>descriptors := descriptors best_match\<rparr>
                         else c1)
               in c2
          else current_product)"

text \<open>One backup row as a product: \<open>for field_name, col_idx in backup_column_mapping.items()\<close>.\<close>
fun backup_product_of :: "(string \<times> nat) list \<Rightarrow> string list \<Rightarrow> product \<Rightarrow> product" where
  "backup_product_of [] row backup_product = backup_product"
| "backup_product_of ((field_name, col_idx) # column_mapping) row backup_product =
     backup_product_of column_mapping row
       (if col_idx < length row then product_put field_name (row ! col_idx) backup_product
        else product_put field_name [] backup_product)"

text \<open>
  The loop over \<open>backup_data[1:]\<close>. \<open>max(backup_column_mapping.values())\<close> raises
  \<open>ValueError\<close> on an empty mapping.
\<close>
fun backup_rows :: "(string \<times> nat) list \<Rightarrow> string list list \<Rightarrow> py_error + product list" where
  "backup_rows column_mapping [] = Inr []"
| "backup_rows column_mapping (row # rows) =
     (if column_mapping = [] then Inl ValueError
      else if foldr max (map snd column_mapping) 0 + 1 \<le> length row
      then case backup_rows column_mapping rows of
             Inl e \<Rightarrow> Inl e
           | Inr backup_products \<Rightarrow>
               Inr (backup_product_of column_mapping row empty_product # backup_products)
      else backup_rows column_mapping rows)"

text \<open>\<open>AlcoholBackupRestorer.restore_from_backup\<close>\<close>
definition restore_from_backup ::
  "('f::linorder) float_ops \<Rightarrow> config \<Rightarrow> 'a product_scheme list \<Rightarrow> string list list
   \<Rightarrow> (string \<times> nat) list \<Rightarrow> py_error + 'a product_scheme list" where
  "restore_from_backup fl cfg current_products backup_data backup_column_mapping =
     (case (if 1 < length backup_data then backup_rows backup_column_mapping (tl backup_data)
            else Inr []) of
        Inl e \<Rightarrow> Inl e
      | Inr backup_products \<Rightarrow>
          Inr (map (restore_product fl cfg backup_products) current_products))"


section \<open>Example records\<close>

text \<open>Two entries of one product that differ in the length of the product name only.\<close>

definition vodka_long :: product where
  "vodka_long = empty_product\<lparr>brand_name := ''Smirnoff'', product_name := ''Vodka 750ml'',
     price := ''29.95'', image_url := ''https://img/1.png'', source := ''LCBO''\<rparr>"

definition vodka_short :: product where
  "vodka_short = empty_product\<lparr>brand_name := ''Smirnoff'', product_name := ''Vodka'',
     price := ''29.95'', image_url := ''https://img/2.png'', source := ''LCBO''\<rparr>"

text \<open>A cluster whose first entry has an image and no price; the other two have a price.\<close>

definition gin_pictured :: product where
  "gin_pictured = empty_product\<lparr>brand_name := ''Tanqueray'', product_name := ''Gin'',
     image_url := ''https://img/3.png''\<rparr>"

definition gin_second :: product where
  "gin_second = empty_product\<lparr>brand_name := ''Tanqueray'', product_name := ''Gin 750ml'',
     price := ''24.95''\<rparr>"

definition gin_third :: product where
  "gin_third = empty_product\<lparr>brand_name := ''Tanqueray'', product_name := ''Gin 1L'',
     price := ''22.95''\<rparr>"

lemmas example_defs =
  empty_product_def vodka_long_def vodka_short_def gin_pictured_def gin_second_def gin_third_def


section \<open>Record Merger: properties\<close>

text \<open>The value of field \<open>f\<close> in the first element of \<open>ds\<close> that has one, else empty.\<close>
definition first_nonempty :: "('a \<Rightarrow> string) \<Rightarrow> 'a list \<Rightarrow> string" where
  "first_nonempty f ds = (case find (\<lambda>d. f d \<noteq> []) ds of None \<Rightarrow> [] | Some d \<Rightarrow> f d)"

lemma sort_key_nonempty: "xs \<noteq> [] \<Longrightarrow> sort_key f xs \<noteq> []"
  by (metis length_sort length_0_conv)

lemma merge_missing_fields:
  "image_url (merge_missing b d) = (if image_url b = [] then image_url d else image_url b)"
  "price (merge_missing b d) = (if price b = [] then price d else price b)"
  "lcbo_id (merge_missing b d) = (if lcbo_id b = [] then lcbo_id d else lcbo_id b)"
  by (simp_all add: merge_missing_def Let_def)

lemma merge_rest_image_url:
  "image_url (merge_rest b ds) =
     (if image_url b \<noteq> [] then image_url b
      else case find (\<lambda>d. image_url d \<noteq> []) ds of None \<Rightarrow> [] | Some d \<Rightarrow> image_url d)"
  by (induction ds arbitrary: b) (simp_all add: merge_missing_fields)

lemma merge_rest_price:
  "price (merge_rest b ds) =
     (if price b \<noteq> [] then price b
      else case find (\<lambda>d. price d \<noteq> []) ds of None \<Rightarrow> [] | Some d \<Rightarrow> price d)"
  by (induction ds arbitrary: b) (simp_all add: merge_missing_fields)

lemma merge_rest_lcbo_id:
  "lcbo_id (merge_rest b ds) =
     (if lcbo_id b \<noteq> [] then lcbo_id b
      else case find (\<lambda>d. lcbo_id d \<noteq> []) ds of None \<Rightarrow> [] | Some d \<Rightarrow> lcbo_id d)"
  by (induction ds arbitrary: b) (simp_all add: merge_missing_fields)

lemma merge_missing_frame:
  "brand_name (merge_missing b d) = brand_name b" "product_name (merge_missing b d) = product_name b"
  "category (merge_missing b d) = category b" "subcategory (merge_missing b d) = subcategory b"
  "product_id (merge_missing b d) = product_id b" "source (merge_missing b d) = source b"
  "descriptors (merge_missing b d) = descriptors b"
  "gluten_free_score (merge_missing b d) = gluten_free_score b"
  "product.more (merge_missing b d) = product.more b"
  by (simp_all add: merge_missing_def Let_def)

lemma merge_rest_frame:
  "brand_name (merge_rest b ds) = brand_name b" "product_name (merge_rest b ds) = product_name b"
  "category (merge_rest b ds) = category b" "subcategory (merge_rest b ds) = subcategory b"
  "product_id (merge_rest b ds) = product_id b" "source (merge_rest b ds) = source b"
  "descriptors (merge_rest b ds) = descriptors b"
  "gluten_free_score (merge_rest b ds) = gluten_free_score b"
  "product.more (merge_rest b ds) = product.more b"
  by (induction ds arbitrary: b) (simp_all add: merge_missing_frame)

lemma find_nonempty_field:
  "\<exists>p \<in> set ds. f p \<noteq> [] \<Longrightarrow>
   (case find (\<lambda>d. f d \<noteq> []) ds of None \<Rightarrow> [] | Some d \<Rightarrow> f d) \<noteq> []"
  by (induction ds) auto


text \<open>
  C1. The claim: among records tied on source, image and price, the record with the
  longer product name is the base of the merge. Both mergers sort ascending by
  \<open>len(product_name)\<close> as the last key, under the comment "Longer product name first",
  so the base is the record with the shorter name: here the two entries are tied on
  the other keys, the longer name comes first in the cluster, and the merged record is
  the entry with the shorter name.
\<close>
theorem merge_base_has_shorter_name:
  "integrity_merge_duplicates [[vodka_long, vodka_short]] = [vodka_short]
   \<and> merge_duplicates [[vodka_long, vodka_short]] = [vodka_short]
   \<and> length (product_name vodka_short) < length (product_name vodka_long)"
  by (simp add: integrity_merge_group_def merge_group_def integrity_merge_key_def merge_key_def
      example_defs merge_missing_def)

text \<open>
  C5, as stated, read with the cluster's own order: the merged price would be the price
  of the first member after the base, in cluster order, that has one. The members after
  the base are visited in sorted order instead: the cluster below is
  \<open>[gin_pictured, gin_second, gin_third]\<close>, the base \<open>gin_pictured\<close> has no price,
  \<open>gin_second\<close> is the first member in cluster order with a price, and the merged
  record has the price of \<open>gin_third\<close>, which sorts before \<open>gin_second\<close> by its
  shorter name.
\<close>
theorem merge_fill_order_counterexample:
  "merge_duplicates [[gin_pictured, gin_second, gin_third]]
     = [gin_pictured\<lparr>price := price gin_third\<rparr>]
   \<and> price gin_pictured = [] \<and> price gin_second \<noteq> []
   \<and> price gin_third \<noteq> price gin_second"
  by (simp add: merge_group_def merge_key_def example_defs merge_missing_def)

text \<open>
  C5, amended: for every non-empty cluster the merged record has the brand name,
  product name, category and subcategory of the base, the first element of the cluster
  sorted by \<open>merge_key\<close>; its image URL, price and LCBO id are the base's own when the
  base has one, and otherwise that of the first member after the base in the sorted
  order that has one; and when some member has an image URL, so has the merged record.
\<close>
theorem merge_group_fields:
  "g \<noteq> [] \<Longrightarrow>
   (let sorted_group = sort_key merge_key g;
        base = hd sorted_group;
        m = merge_group g
    in merge_duplicates [g] = [m]
     \<and> brand_name m = brand_name base \<and> product_name m = product_name base
     \<and> category m = category base \<and> subcategory m = subcategory base
     \<and> image_url m = (if image_url base \<noteq> [] then image_url base
                       else first_nonempty image_url (tl sorted_group))
     \<and> price m = (if price base \<noteq> [] then price base
                   else first_nonempty price (tl sorted_group))
     \<and> lcbo_id m = (if lcbo_id base \<noteq> [] then lcbo_id base
                     else first_nonempty lcbo_id (tl sorted_group))
     \<and> ((\<exists>p \<in> set g. image_url p \<noteq> []) \<longrightarrow> image_url m \<noteq> []))"
proof -
  assume g: "g \<noteq> []"
  define sorted_group where "sorted_group = sort_key merge_key g"
  define base where "base = hd sorted_group"
  define m where "m = merge_group g"
  have m: "m = merge_rest base (tl sorted_group)"
    by (simp add: m_def merge_group_def base_def sorted_group_def Let_def)
  have ne: "sorted_group \<noteq> []"
    using g by (simp add: sorted_group_def sort_key_nonempty)
  have img: "image_url m = (if image_url base \<noteq> [] then image_url base
                      else first_nonempty image_url (tl sorted_group))"
    by (simp add: m merge_rest_image_url first_nonempty_def)
  have keep: "image_url m \<noteq> []" if "\<exists>p \<in> set g. image_url p \<noteq> []"
  proof (cases "image_url base = []")
    case True
    from that obtain p where p: "p \<in> set g" "image_url p \<noteq> []" by blast
    have "set g = set sorted_group" by (simp add: sorted_group_def)
    also have "\<dots> = insert base (set (tl sorted_group))"
      using ne by (cases sorted_group) (simp_all add: base_def)
    finally have "p \<in> set (tl sorted_group)" using p True by auto
    then have "\<exists>p \<in> set (tl sorted_group). image_url p \<noteq> []" using p by blast
    from find_nonempty_field[OF this] show ?thesis
      using True img by (simp add: first_nonempty_def)
  next
    case False
    then show ?thesis using img by simp
  qed
  have "merge_duplicates [g] = [m]
     \<and> brand_name m = brand_name base \<and> product_name m = product_name base
     \<and> category m = category base \<and> subcategory m = subcategory base
     \<and> image_url m = (if image_url base \<noteq> [] then image_url base
                       else first_nonempty image_url (tl sorted_group))
     \<and> price m = (if price base \<noteq> [] then price base
                   else first_nonempty price (tl sorted_group))
     \<and> lcbo_id m = (if lcbo_id base \<noteq> [] then lcbo_id base
                     else first_nonempty lcbo_id (tl sorted_group))
     \<and> ((\<exists>p \<in> set g. image_url p \<noteq> []) \<longrightarrow> image_url m \<noteq> [])"
    using g img keep
    by (simp add: m merge_rest_frame merge_rest_price merge_rest_lcbo_id first_nonempty_def
        flip: m_def)
  then show ?thesis
    unfolding Let_def m_def base_def sorted_group_def .
qed


theorem merge_group_fields_witness:
  "[gin_pictured, gin_second, gin_third] \<noteq> []
   \<and> (\<exists>p \<in> set [gin_pictured, gin_second, gin_third]. image_url p \<noteq> [])
   \<and> image_url (merge_group [gin_pictured, gin_second, gin_third]) = ''https://img/3.png''
   \<and> price (merge_group [gin_pictured, gin_second, gin_third]) = ''22.95''
   \<and> product_name (merge_group [gin_pictured, gin_second, gin_third]) = ''Gin''"
  using merge_group_fields [of "[gin_pictured, gin_second, gin_third]"]
  by (simp add: Let_def merge_key_def example_defs first_nonempty_def)


section \<open>Grouping loops: properties\<close>

text \<open>The list stored under a key, empty for a missing key.\<close>
definition dict_get :: "('k \<times> 'v list) list \<Rightarrow> 'k \<Rightarrow> 'v list" where
  "dict_get d k = (case map_of d k of None \<Rightarrow> [] | Some vs \<Rightarrow> vs)"

text \<open>The shape shared by the grouping loops: the selected elements are appended under their key.\<close>
fun group_into ::
  "('a \<Rightarrow> bool) \<Rightarrow> ('a \<Rightarrow> 'k) \<Rightarrow> ('a \<Rightarrow> 'v) \<Rightarrow> 'a list \<Rightarrow> ('k \<times> 'v list) list
   \<Rightarrow> ('k \<times> 'v list) list" where
  "group_into sel keyf valf [] d = d"
| "group_into sel keyf valf (x # xs) d =
     group_into sel keyf valf xs (if sel x then dict_append (keyf x) (valf x) d else d)"

definition has_exact_key :: "'a product_scheme \<Rightarrow> bool" where
  "has_exact_key p = (str_strip (brand_name p) \<noteq> [] \<and> str_strip (product_name p) \<noteq> [])"

definition exact_key :: "'a product_scheme \<Rightarrow> string" where
  "exact_key p = str_lower (str_strip (brand_name p)) @ ''|'' @ str_lower (str_strip (product_name p))"

lemma dict_append_keys:
  "map fst (dict_append k v d) = (if k \<in> fst ` set d then map fst d else map fst d @ [k])"
proof (induction d)
  case Nil
  then show ?case by simp
next
  case (Cons e d)
  obtain k' vs where e: "e = (k', vs)" by (cases e)
  show ?case
  proof (cases "k' = k")
    case True
    then show ?thesis by (simp add: e)
  next
    case False
    then have "k \<in> fst ` set (e # d) \<longleftrightarrow> k \<in> fst ` set d" by (auto simp: e)
    then show ?thesis using False Cons.IH by (simp add: e)
  qed
qed

lemma dict_append_distinct:
  "distinct (map fst d) \<Longrightarrow> distinct (map fst (dict_append k v d))"
  by (auto simp: dict_append_keys)

lemma dict_get_append:
  "dict_get (dict_append k v d) k' = (if k' = k then dict_get d k @ [v] else dict_get d k')"
  by (induction d) (auto simp: dict_get_def)

lemma dict_append_nonempty:
  "list_all (\<lambda>e. snd e \<noteq> []) d \<Longrightarrow> list_all (\<lambda>e. snd e \<noteq> []) (dict_append k v d)"
  by (induction d) auto

lemma dict_get_member:
  "distinct (map fst d) \<Longrightarrow> (k, g) \<in> set d \<Longrightarrow> dict_get d k = g"
  by (simp add: dict_get_def)

lemma group_into_distinct:
  "distinct (map fst d) \<Longrightarrow> distinct (map fst (group_into sel keyf valf xs d))"
  by (induction xs arbitrary: d) (simp_all add: dict_append_distinct)

lemma group_into_nonempty:
  "list_all (\<lambda>e. snd e \<noteq> []) d \<Longrightarrow>
   list_all (\<lambda>e. snd e \<noteq> []) (group_into sel keyf valf xs d)"
  by (induction xs arbitrary: d) (simp_all add: dict_append_nonempty)

lemma group_into_get:
  "dict_get (group_into sel keyf valf xs d) k
     = dict_get d k @ map valf (filter (\<lambda>x. sel x \<and> keyf x = k) xs)"
  by (induction xs arbitrary: d) (auto simp: dict_get_append)

lemma group_into_member:
  assumes "(k, g) \<in> set (group_into sel keyf valf xs [])"
  shows "g = map valf (filter (\<lambda>x. sel x \<and> keyf x = k) xs) \<and> g \<noteq> []"
proof -
  have "distinct (map fst (group_into sel keyf valf xs []))"
    by (rule group_into_distinct) simp
  from dict_get_member[OF this assms]
  have "dict_get [] k @ map valf (filter (\<lambda>x. sel x \<and> keyf x = k) xs) = g"
    unfolding group_into_get .
  then have "g = map valf (filter (\<lambda>x. sel x \<and> keyf x = k) xs)"
    by (simp add: dict_get_def)
  moreover have "list_all (\<lambda>e. snd e \<noteq> []) (group_into sel keyf valf xs [])"
    by (rule group_into_nonempty) simp
  then have "g \<noteq> []" using assms by (auto simp: list_all_iff)
  ultimately show ?thesis by simp
qed

text \<open>The groups of pairwise different keys use each element at most once.\<close>
lemma mset_concat_filters:
  "distinct ks \<Longrightarrow>
   mset (concat (map (\<lambda>k. filter (\<lambda>x. sel x \<and> keyf x = k) xs) ks))
     = mset (filter (\<lambda>x. sel x \<and> keyf x \<in> set ks) xs)"
proof (induction ks)
  case Nil
  then show ?case by simp
next
  case (Cons k ks)
  have "mset (filter (\<lambda>x. sel x \<and> keyf x \<in> set (k # ks)) xs)
        = mset (filter (\<lambda>x. sel x \<and> keyf x = k) xs)
          + mset (filter (\<lambda>x. sel x \<and> keyf x \<in> set ks) xs)"
    using Cons.prems by (induction xs) auto
  then show ?case using Cons by simp
qed

lemma group_into_values:
  "map snd (group_into sel keyf id xs [])
     = map (\<lambda>k. filter (\<lambda>x. sel x \<and> keyf x = k) xs) (map fst (group_into sel keyf id xs []))"
proof -
  have "snd kg = filter (\<lambda>x. sel x \<and> keyf x = fst kg) xs"
    if "kg \<in> set (group_into sel keyf id xs [])" for kg
    using group_into_member[of "fst kg" "snd kg" sel keyf id xs] that by simp
  then show ?thesis by (simp add: comp_def)
qed

lemma group_into_mset:
  "mset (concat (map snd (group_into sel keyf id xs []))) \<subseteq># mset xs"
proof -
  have "distinct (map fst (group_into sel keyf id xs []))"
    by (rule group_into_distinct) simp
  from mset_concat_filters[OF this, of sel keyf xs]
  have "mset (concat (map snd (group_into sel keyf id xs [])))
        = mset (filter (\<lambda>x. sel x \<and> keyf x \<in> set (map fst (group_into sel keyf id xs []))) xs)"
    by (subst group_into_values) simp
  then show ?thesis by (simp add: multiset_filter_subset)
qed

lemma mset_subset_distinct:
  assumes "mset ys \<subseteq># mset xs" "distinct xs"
  shows "distinct ys"
proof -
  from assms(1) obtain C where "mset xs = mset ys + C"
    by (auto simp: mset_subset_eq_exists_conv)
  moreover obtain zs where "mset zs = C" using ex_mset by blast
  ultimately have "mset xs = mset (ys @ zs)" by simp
  then have "distinct (ys @ zs)" using assms(2) by (metis mset_eq_imp_distinct_iff)
  then show ?thesis by simp
qed


section \<open>Duplicate Grouper, exact mode: properties\<close>

text \<open>The records of the exact-mode scenario.\<close>

definition smirnoff_vodka :: product where
  "smirnoff_vodka = empty_product\<lparr>brand_name := ''Smirnoff'', product_name := ''Vodka 750ml''\<rparr>"

definition smirnoff_vodka_caps :: product where
  "smirnoff_vodka_caps = empty_product\<lparr>brand_name := ''SMIRNOFF'', product_name := ''vodka 750ml''\<rparr>"

definition smirnoff_litre :: product where
  "smirnoff_litre = empty_product\<lparr>brand_name := ''Smirnoff'', product_name := ''Vodka 1L''\<rparr>"

lemma str_lower_Nil [simp]: "str_lower s = [] \<longleftrightarrow> s = []"
  by (simp add: str_lower_def)

lemma duplicate_groups_of_group_into:
  "duplicate_groups_of products d = group_into has_exact_key exact_key id products d"
  by (induction products arbitrary: d) (simp_all add: Let_def has_exact_key_def exact_key_def)

lemma exact_duplicates_of_filter:
  "exact_duplicates_of d = map snd (filter (\<lambda>e. 1 < length (snd e)) d)"
  by (induction d rule: exact_duplicates_of.induct) simp_all

lemma mset_concat_filter_groups:
  "mset (concat (map snd (filter P d))) \<subseteq># mset (concat (map snd d))"
  by (induction d) (auto simp: subset_mset.add_increasing)

lemma find_exact_duplicates_example:
  "find_exact_duplicates [smirnoff_vodka, smirnoff_vodka_caps, smirnoff_litre]
     = [[smirnoff_vodka, smirnoff_vodka_caps]]"
  by code_simp

text \<open>
  C4. Exact mode keys each record by \<open>lower(strip(brand_name)) + "|" +
  lower(strip(product_name))\<close>. Every returned cluster has at least two records and is
  the list of all keyed input records with one key, in input order; so its members
  share that key, and none of them has an empty brand or product name after trimming.
  No record is in two clusters: the clusters together use each input record at most
  as often as the input holds it, and they are pairwise disjoint and free of
  repetitions when the input records are pairwise different. The three Smirnoff
  records give the one cluster of the first two.
\<close>
theorem exact_duplicates_partition:
  "(\<forall>cluster \<in> set (find_exact_duplicates products).
       2 \<le> length cluster
     \<and> (\<exists>key. cluster = filter (\<lambda>p. has_exact_key p \<and> exact_key p = key) products)
     \<and> (\<forall>p \<in> set cluster. str_strip (brand_name p) \<noteq> [] \<and> str_strip (product_name p) \<noteq> []
                           \<and> exact_key p = exact_key (hd cluster)))
   \<and> mset (concat (find_exact_duplicates products)) \<subseteq># mset products
   \<and> (distinct products \<longrightarrow> distinct (concat (find_exact_duplicates products)))
   \<and> find_exact_duplicates [smirnoff_vodka, smirnoff_vodka_caps, smirnoff_litre]
       = [[smirnoff_vodka, smirnoff_vodka_caps]]"
proof -
  let ?groups = "group_into has_exact_key exact_key id products []"
  have fed: "find_exact_duplicates products = map snd (filter (\<lambda>e. 1 < length (snd e)) ?groups)"
    by (simp add: find_exact_duplicates_def duplicate_groups_of_group_into
        exact_duplicates_of_filter)
  have cl: "2 \<le> length cluster
     \<and> (\<exists>key. cluster = filter (\<lambda>p. has_exact_key p \<and> exact_key p = key) products)
     \<and> (\<forall>p \<in> set cluster. str_strip (brand_name p) \<noteq> [] \<and> str_strip (product_name p) \<noteq> []
                           \<and> exact_key p = exact_key (hd cluster))"
    if "cluster \<in> set (find_exact_duplicates products)" for cluster
  proof -
    from that obtain key where kg: "(key, cluster) \<in> set ?groups" and len: "1 < length cluster"
      by (auto simp: fed)
    from group_into_member[OF kg]
    have c: "cluster = filter (\<lambda>p. has_exact_key p \<and> exact_key p = key) products" by simp
    have mem: "has_exact_key p \<and> exact_key p = key" if "p \<in> set cluster" for p
      using that by (subst (asm) c) simp
    have "hd cluster \<in> set cluster" using len by (cases cluster) auto
    then have "exact_key (hd cluster) = key" using mem by blast
    moreover have "2 \<le> length cluster" using len by simp
    moreover have "\<exists>key. cluster = filter (\<lambda>p. has_exact_key p \<and> exact_key p = key) products"
      using c by (rule exI)
    moreover have "str_strip (brand_name p) \<noteq> [] \<and> str_strip (product_name p) \<noteq> []"
      if "p \<in> set cluster" for p
      using mem[OF that] by (simp add: has_exact_key_def)
    ultimately show ?thesis using mem by simp
  qed
  have ms: "mset (concat (find_exact_duplicates products)) \<subseteq># mset products"
    unfolding fed
    by (rule subset_mset.order_trans[OF mset_concat_filter_groups group_into_mset])
  have "distinct (concat (find_exact_duplicates products))" if "distinct products"
    using ms that by (rule mset_subset_distinct)
  then have di: "distinct products \<longrightarrow> distinct (concat (find_exact_duplicates products))" ..
  from cl have "\<forall>cluster \<in> set (find_exact_duplicates products).
       2 \<le> length cluster
     \<and> (\<exists>key. cluster = filter (\<lambda>p. has_exact_key p \<and> exact_key p = key) products)
     \<and> (\<forall>p \<in> set cluster. str_strip (brand_name p) \<noteq> [] \<and> str_strip (product_name p) \<noteq> []
                           \<and> exact_key p = exact_key (hd cluster))" ..
  with ms di find_exact_duplicates_example show ?thesis by (intro conjI)
qed

theorem exact_duplicates_partition_witness:
  "distinct [smirnoff_vodka, smirnoff_vodka_caps, smirnoff_litre]
   \<and> [smirnoff_vodka, smirnoff_vodka_caps]
        \<in> set (find_exact_duplicates [smirnoff_vodka, smirnoff_vodka_caps, smirnoff_litre])
   \<and> exact_key smirnoff_vodka_caps = exact_key smirnoff_vodka
   \<and> distinct (concat (find_exact_duplicates [smirnoff_vodka, smirnoff_vodka_caps, smirnoff_litre]))"
proof -
  note T = exact_duplicates_partition [of "[smirnoff_vodka, smirnoff_vodka_caps, smirnoff_litre]"]
  have d: "distinct [smirnoff_vodka, smirnoff_vodka_caps, smirnoff_litre]"
    by (simp add: smirnoff_vodka_def smirnoff_vodka_caps_def smirnoff_litre_def empty_product_def)
  from T have ex: "find_exact_duplicates [smirnoff_vodka, smirnoff_vodka_caps, smirnoff_litre]
       = [[smirnoff_vodka, smirnoff_vodka_caps]]" by (elim conjE)
  then have m: "[smirnoff_vodka, smirnoff_vodka_caps]
        \<in> set (find_exact_duplicates [smirnoff_vodka, smirnoff_vodka_caps, smirnoff_litre])"
    by simp
  from T m have "\<forall>p \<in> set [smirnoff_vodka, smirnoff_vodka_caps].
      exact_key p = exact_key (hd [smirnoff_vodka, smirnoff_vodka_caps])"
    by (elim conjE) (drule (1) bspec, elim conjE, blast)
  then have k: "exact_key smirnoff_vodka_caps = exact_key smirnoff_vodka" by simp
  from T d have "distinct (concat (find_exact_duplicates
      [smirnoff_vodka, smirnoff_vodka_caps, smirnoff_litre]))"
    by (elim conjE) (erule mp)
  with d m k show ?thesis by (intro conjI)
qed


section \<open>Duplicate Grouper, fuzzy mode: properties\<close>

text \<open>The test of the inner loop: both names are not empty and are similar enough.\<close>
definition similar_names :: "config \<Rightarrow> 'a product_scheme \<Rightarrow> 'a product_scheme \<Rightarrow> bool" where
  "similar_names cfg product1 product2 =
     (str_lower (product_name product1) \<noteq> [] \<and> str_lower (product_name product2) \<noteq> []
      \<and> similarity_threshold cfg
          \<le> ratio (str_lower (product_name product1)) (str_lower (product_name product2)))"

text \<open>The elements of a bucket, from position \<open>i\<close> on, whose position is not in \<open>processed\<close>.\<close>
fun unclaimed :: "nat \<Rightarrow> 'a list \<Rightarrow> nat set \<Rightarrow> 'a list" where
  "unclaimed i [] processed = []"
| "unclaimed i (x # xs) processed =
     (if i \<in> processed then unclaimed (Suc i) xs processed
      else x # unclaimed (Suc i) xs processed)"

lemma unclaimed_insert_below: "k < i \<Longrightarrow> unclaimed i xs (insert k P) = unclaimed i xs P"
  by (induction xs arbitrary: i) auto

lemma unclaimed_empty: "unclaimed i xs {} = xs"
  by (induction xs arbitrary: i) auto

lemma similar_sweep_result:
  "similar_sweep cfg p1 j rest P sim = (sim', P') \<Longrightarrow>
   P \<subseteq> P' \<and> (\<forall>k<j. k \<in> P' \<longrightarrow> k \<in> P)
   \<and> (\<exists>new. sim' = sim @ new \<and> (\<forall>q \<in> set new. q \<in> set rest \<and> similar_names cfg p1 q)
         \<and> mset (unclaimed j rest P) = mset new + mset (unclaimed j rest P'))"
proof (induction rest arbitrary: j P sim)
  case Nil
  then show ?case by simp
next
  case (Cons p2 rest)
  consider (claimed) "j \<in> P" | (match) "j \<notin> P" "similar_names cfg p1 p2"
    | (nomatch) "j \<notin> P" "\<not> similar_names cfg p1 p2" by blast
  then show ?case
  proof cases
    case claimed
    then have "similar_sweep cfg p1 (Suc j) rest P sim = (sim', P')"
      using Cons.prems by simp
    from Cons.IH[OF this] obtain new where
      sub: "P \<subseteq> P'" and low: "\<forall>k<Suc j. k \<in> P' \<longrightarrow> k \<in> P" and
      new: "sim' = sim @ new" "\<forall>q \<in> set new. q \<in> set rest \<and> similar_names cfg p1 q"
        "mset (unclaimed (Suc j) rest P) = mset new + mset (unclaimed (Suc j) rest P')"
      by blast
    have "j \<in> P'" using claimed sub by blast
    then have "mset (unclaimed j (p2 # rest) P) = mset new + mset (unclaimed j (p2 # rest) P')"
      using claimed new(3) by simp
    moreover have "\<forall>q \<in> set new. q \<in> set (p2 # rest) \<and> similar_names cfg p1 q"
      using new(2) by simp
    ultimately show ?thesis using sub low new(1) by auto
  next
    case match
    then have "similar_sweep cfg p1 (Suc j) rest (insert j P) (sim @ [p2]) = (sim', P')"
      using Cons.prems by (simp add: similar_names_def Let_def)
    from Cons.IH[OF this] obtain new where
      sub: "insert j P \<subseteq> P'" and low: "\<forall>k<Suc j. k \<in> P' \<longrightarrow> k \<in> insert j P" and
      new: "sim' = (sim @ [p2]) @ new" "\<forall>q \<in> set new. q \<in> set rest \<and> similar_names cfg p1 q"
        "mset (unclaimed (Suc j) rest (insert j P)) = mset new + mset (unclaimed (Suc j) rest P')"
      by blast
    have "j \<in> P'" using sub by blast
    then have "mset (unclaimed j (p2 # rest) P)
                 = mset (p2 # new) + mset (unclaimed j (p2 # rest) P')"
      using match(1) new(3) by (simp add: unclaimed_insert_below)
    moreover have "\<forall>q \<in> set (p2 # new). q \<in> set (p2 # rest) \<and> similar_names cfg p1 q"
      using new(2) match(2) by simp
    moreover have "sim' = sim @ (p2 # new)" using new(1) by simp
    moreover have "\<forall>k<j. k \<in> P' \<longrightarrow> k \<in> P"
    proof (intro allI impI)
      fix k assume k: "k < j" "k \<in> P'"
      then have "k < Suc j" by simp
      with low k have "k \<in> insert j P" by blast
      with k show "k \<in> P" by simp
    qed
    moreover have "P \<subseteq> P'" using sub by blast
    ultimately show ?thesis by blast
  next
    case nomatch
    then have "similar_sweep cfg p1 (Suc j) rest P sim = (sim', P')"
      using Cons.prems by (auto simp: similar_names_def Let_def)
    from Cons.IH[OF this] obtain new where
      sub: "P \<subseteq> P'" and low: "\<forall>k<Suc j. k \<in> P' \<longrightarrow> k \<in> P" and
      new: "sim' = sim @ new" "\<forall>q \<in> set new. q \<in> set rest \<and> similar_names cfg p1 q"
        "mset (unclaimed (Suc j) rest P) = mset new + mset (unclaimed (Suc j) rest P')"
      by blast
    have "j \<notin> P'" using nomatch(1) low by blast
    then have "mset (unclaimed j (p2 # rest) P) = mset new + mset (unclaimed j (p2 # rest) P')"
      using nomatch(1) new(3) by simp
    moreover have "\<forall>q \<in> set new. q \<in> set (p2 # rest) \<and> similar_names cfg p1 q"
      using new(2) by simp
    ultimately show ?thesis using sub low new(1) by auto
  qed
qed

lemma bucket_sweep_cluster:
  "c \<in> set (bucket_sweep cfg i xs P) \<Longrightarrow>
   2 \<le> length c \<and> set c \<subseteq> set xs \<and> (\<forall>q \<in> set (tl c). similar_names cfg (hd c) q)"
proof (induction xs arbitrary: i P)
  case Nil
  then show ?case by simp
next
  case (Cons p1 rest)
  show ?case
  proof (cases "i \<in> P")
    case True
    then have "c \<in> set (bucket_sweep cfg (Suc i) rest P)" using Cons.prems by simp
    from Cons.IH[OF this] show ?thesis by auto
  next
    case False
    obtain sim' P' where sw: "similar_sweep cfg p1 (Suc i) rest P [p1] = (sim', P')"
      by (cases "similar_sweep cfg p1 (Suc i) rest P [p1]")
    from similar_sweep_result[OF sw] obtain new where
      new: "sim' = [p1] @ new" "\<forall>q \<in> set new. q \<in> set rest \<and> similar_names cfg p1 q"
      by blast
    from Cons.prems False sw
    consider (here) "c = sim'" "1 < length sim'"
      | (later) "c \<in> set (bucket_sweep cfg (Suc i) rest (insert i P'))"
      | (later') "c \<in> set (bucket_sweep cfg (Suc i) rest P')"
      by (auto split: if_splits)
    then show ?thesis
    proof cases
      case here
      then have "2 \<le> length c" by simp
      moreover have "hd c = p1" "tl c = new" "set c \<subseteq> set (p1 # rest)"
        using here new by auto
      ultimately show ?thesis using new(2) by simp
    next
      case later
      from Cons.IH[OF this] show ?thesis by auto
    next
      case later'
      from Cons.IH[OF this] show ?thesis by auto
    qed
  qed
qed

lemma bucket_sweep_mset:
  "mset (concat (bucket_sweep cfg i xs P)) \<subseteq># mset (unclaimed i xs P)"
proof (induction xs arbitrary: i P)
  case Nil
  then show ?case by simp
next
  case (Cons p1 rest)
  show ?case
  proof (cases "i \<in> P")
    case True
    then show ?thesis using Cons.IH[of "Suc i" P] by simp
  next
    case False
    obtain sim' P' where sw: "similar_sweep cfg p1 (Suc i) rest P [p1] = (sim', P')"
      by (cases "similar_sweep cfg p1 (Suc i) rest P [p1]")
    from similar_sweep_result[OF sw] obtain new where
      new: "sim' = [p1] @ new"
        "mset (unclaimed (Suc i) rest P) = mset new + mset (unclaimed (Suc i) rest P')"
      by blast
    have un: "mset (unclaimed i (p1 # rest) P)
                = mset sim' + mset (unclaimed (Suc i) rest P')"
      using False new by simp
    show ?thesis
    proof (cases "1 < length sim'")
      case True
      have "mset (concat (bucket_sweep cfg (Suc i) rest (insert i P')))
              \<subseteq># mset (unclaimed (Suc i) rest P')"
        using Cons.IH[of "Suc i" "insert i P'"] by (simp add: unclaimed_insert_below)
      then have "mset sim' + mset (concat (bucket_sweep cfg (Suc i) rest (insert i P')))
              \<subseteq># mset sim' + mset (unclaimed (Suc i) rest P')"
        by simp
      then show ?thesis using False sw True un by simp
    next
      case short: False
      have "mset (concat (bucket_sweep cfg (Suc i) rest P'))
              \<subseteq># mset sim' + mset (unclaimed (Suc i) rest P')"
        using Cons.IH[of "Suc i" P'] by (simp add: subset_mset.add_increasing)
      then show ?thesis using False sw short un by simp
    qed
  qed
qed

lemma brand_buckets_of_group_into:
  "brand_buckets_of products d
     = group_into (\<lambda>p. True) (\<lambda>p. str_lower (brand_name p)) id products d"
  by (induction products arbitrary: d) simp_all

lemma fuzzy_duplicates_of_concat:
  "fuzzy_duplicates_of cfg d
     = concat (map (\<lambda>e. if length (snd e) \<le> 1 then [] else bucket_sweep cfg 0 (snd e) {}) d)"
  by (induction d rule: fuzzy_duplicates_of.induct) simp_all

lemma mset_concat_groups_mono:
  "(\<And>e. e \<in> set d \<Longrightarrow> mset (concat (f e)) \<subseteq># mset (snd e)) \<Longrightarrow>
   mset (concat (concat (map f d))) \<subseteq># mset (concat (map snd d))"
  by (induction d) (auto intro: subset_mset.add_mono)

text \<open>Two entries of one brand whose names differ by a space, and two such entries without a brand.\<close>

definition absolut_vodka :: product where
  "absolut_vodka = empty_product\<lparr>brand_name := ''Absolut'', product_name := ''Vodka 750ml''\<rparr>"

definition absolut_vodka_spaced :: product where
  "absolut_vodka_spaced = empty_product\<lparr>brand_name := ''ABSOLUT'', product_name := ''Vodka 750 ml''\<rparr>"

definition unbranded_vodka :: product where
  "unbranded_vodka = empty_product\<lparr>product_name := ''Vodka 750ml''\<rparr>"

definition unbranded_vodka_spaced :: product where
  "unbranded_vodka_spaced = empty_product\<lparr>product_name := ''Vodka 750 ml''\<rparr>"

text \<open>
  C3. In fuzzy mode every returned cluster has at least two records of the input,
  all with the lower-cased brand name of its first member, and that brand's bucket
  holds at least two input records; every member other than the first has a product
  name whose similarity with the first member's is at least the configured threshold
  (the members need not be similar to each other); no member has an empty product
  name. The clusters are pairwise disjoint: together they use each input record at
  most as often as the input holds it, and they are free of repetitions when the input
  records are pairwise different.
\<close>
theorem fuzzy_star_clusters:
  "(\<forall>cluster \<in> set (find_duplicates cfg products False).
       2 \<le> length cluster
     \<and> set cluster \<subseteq> set products
     \<and> (\<forall>p \<in> set cluster. str_lower (brand_name p) = str_lower (brand_name (hd cluster)))
     \<and> (\<forall>p \<in> set cluster. product_name p \<noteq> [])
     \<and> (\<forall>p \<in> set (tl cluster).
           similarity_threshold cfg
             \<le> ratio (str_lower (product_name (hd cluster))) (str_lower (product_name p)))
     \<and> 2 \<le> length (filter (\<lambda>p. str_lower (brand_name p) = str_lower (brand_name (hd cluster)))
                        products))
   \<and> mset (concat (find_duplicates cfg products False)) \<subseteq># mset products
   \<and> (distinct products \<longrightarrow> distinct (concat (find_duplicates cfg products False)))"
proof -
  let ?key = "\<lambda>p::'a product_scheme. str_lower (brand_name p)"
  let ?buckets = "group_into (\<lambda>p. True) ?key id products []"
  let ?f = "\<lambda>e::string \<times> 'a product_scheme list.
              if length (snd e) \<le> 1 then [] else bucket_sweep cfg 0 (snd e) {}"
  have fd: "find_duplicates cfg products False = concat (map ?f ?buckets)"
    by (simp add: find_duplicates_def brand_buckets_of_group_into fuzzy_duplicates_of_concat)
  have cl: "2 \<le> length cluster
     \<and> set cluster \<subseteq> set products
     \<and> (\<forall>p \<in> set cluster. str_lower (brand_name p) = str_lower (brand_name (hd cluster)))
     \<and> (\<forall>p \<in> set cluster. product_name p \<noteq> [])
     \<and> (\<forall>p \<in> set (tl cluster).
           similarity_threshold cfg
             \<le> ratio (str_lower (product_name (hd cluster))) (str_lower (product_name p)))
     \<and> 2 \<le> length (filter (\<lambda>p. str_lower (brand_name p) = str_lower (brand_name (hd cluster)))
                        products)"
    if "cluster \<in> set (find_duplicates cfg products False)" for cluster
  proof -
    from that obtain b g where bg: "(b, g) \<in> set ?buckets"
      and big: "\<not> length g \<le> 1" and c: "cluster \<in> set (bucket_sweep cfg 0 g {})"
      by (auto simp: fd split: if_splits)
    from group_into_member[OF bg] have g: "g = filter (\<lambda>p. ?key p = b) products" by simp
    from bucket_sweep_cluster[OF c] have len: "2 \<le> length cluster" and sub: "set cluster \<subseteq> set g"
      and star: "\<forall>q \<in> set (tl cluster). similar_names cfg (hd cluster) q" by auto
    have ne: "cluster \<noteq> []" "tl cluster \<noteq> []" using len by (cases cluster; auto)+
    have hdc: "hd cluster \<in> set cluster" using ne by simp
    have key: "?key p = b" if "p \<in> set cluster" for p
      using that sub by (subst (asm) g) auto
    have inp: "set cluster \<subseteq> set products" using sub by (subst (asm) g) auto
    have hdkey: "?key (hd cluster) = b" using key hdc by blast
    have brand: "\<forall>p \<in> set cluster. ?key p = ?key (hd cluster)" using key hdkey by simp
    obtain q where q: "q \<in> set (tl cluster)" using ne(2) by (cases "tl cluster") auto
    with star have "str_lower (product_name (hd cluster)) \<noteq> []" by (auto simp: similar_names_def)
    then have hdname: "product_name (hd cluster) \<noteq> []" by simp
    have tlname: "product_name p \<noteq> []" if "p \<in> set (tl cluster)" for p
      using star that by (auto simp: similar_names_def)
    have names: "\<forall>p \<in> set cluster. product_name p \<noteq> []"
    proof
      fix p assume "p \<in> set cluster"
      then have "p = hd cluster \<or> p \<in> set (tl cluster)" using ne(1) by (cases cluster) auto
      then show "product_name p \<noteq> []" using hdname tlname by blast
    qed
    have sims: "\<forall>p \<in> set (tl cluster).
           similarity_threshold cfg
             \<le> ratio (str_lower (product_name (hd cluster))) (str_lower (product_name p))"
      using star by (simp add: similar_names_def)
    have "2 \<le> length g" using big by simp
    then have bucket: "2 \<le> length (filter (\<lambda>p. ?key p = ?key (hd cluster)) products)"
      using g hdkey by simp
    from len inp brand names sims bucket show ?thesis by (intro conjI)
  qed
  have each: "mset (concat (?f e)) \<subseteq># mset (snd e)" for e
    using bucket_sweep_mset[of cfg 0 "snd e" "{}"] by (simp add: unclaimed_empty)
  have "mset (concat (concat (map ?f ?buckets))) \<subseteq># mset (concat (map snd ?buckets))"
    by (rule mset_concat_groups_mono) (rule each)
  then have ms: "mset (concat (find_duplicates cfg products False)) \<subseteq># mset products"
    unfolding fd by (rule subset_mset.order_trans[OF _ group_into_mset])
  have "distinct (concat (find_duplicates cfg products False))" if "distinct products"
    using ms that by (rule mset_subset_distinct)
  then have di: "distinct products \<longrightarrow> distinct (concat (find_duplicates cfg products False))" ..
  from cl have "\<forall>cluster \<in> set (find_duplicates cfg products False).
       2 \<le> length cluster
     \<and> set cluster \<subseteq> set products
     \<and> (\<forall>p \<in> set cluster. str_lower (brand_name p) = str_lower (brand_name (hd cluster)))
     \<and> (\<forall>p \<in> set cluster. product_name p \<noteq> [])
     \<and> (\<forall>p \<in> set (tl cluster).
           similarity_threshold cfg
             \<le> ratio (str_lower (product_name (hd cluster))) (str_lower (product_name p)))
     \<and> 2 \<le> length (filter (\<lambda>p. str_lower (brand_name p) = str_lower (brand_name (hd cluster)))
                        products)" ..
  with ms di show ?thesis by (intro conjI)
qed


theorem fuzzy_star_clusters_witness:
  "distinct [absolut_vodka, absolut_vodka_spaced]
   \<and> [absolut_vodka, absolut_vodka_spaced]
        \<in> set (find_duplicates CONFIG [absolut_vodka, absolut_vodka_spaced] False)
   \<and> absolut_vodka_spaced \<in> set (tl [absolut_vodka, absolut_vodka_spaced])
   \<and> similarity_threshold CONFIG
        \<le> ratio (str_lower (product_name absolut_vodka))
                 (str_lower (product_name absolut_vodka_spaced))
   \<and> distinct (concat (find_duplicates CONFIG [absolut_vodka, absolut_vodka_spaced] False))"
proof -
  note T = fuzzy_star_clusters [of CONFIG "[absolut_vodka, absolut_vodka_spaced]"]
  have d: "distinct [absolut_vodka, absolut_vodka_spaced]"
    by (simp add: absolut_vodka_def absolut_vodka_spaced_def empty_product_def)
  have ev: "find_duplicates CONFIG [absolut_vodka, absolut_vodka_spaced] False
              = [[absolut_vodka, absolut_vodka_spaced]]"
    by code_simp
  then have m: "[absolut_vodka, absolut_vodka_spaced]
        \<in> set (find_duplicates CONFIG [absolut_vodka, absolut_vodka_spaced] False)"
    by simp
  have t: "absolut_vodka_spaced \<in> set (tl [absolut_vodka, absolut_vodka_spaced])" by simp
  from T m have "\<forall>p \<in> set (tl [absolut_vodka, absolut_vodka_spaced]).
           similarity_threshold CONFIG
             \<le> ratio (str_lower (product_name (hd [absolut_vodka, absolut_vodka_spaced])))
                      (str_lower (product_name p))"
    by (elim conjE) (drule (1) bspec, elim conjE, assumption)
  with t have r: "similarity_threshold CONFIG
        \<le> ratio (str_lower (product_name (hd [absolut_vodka, absolut_vodka_spaced])))
                 (str_lower (product_name absolut_vodka_spaced))"
    by (rule bspec[rotated])
  then have r': "similarity_threshold CONFIG
        \<le> ratio (str_lower (product_name absolut_vodka))
                 (str_lower (product_name absolut_vodka_spaced))"
    by simp
  from T d have "distinct (concat (find_duplicates CONFIG
      [absolut_vodka, absolut_vodka_spaced] False))"
    by (elim conjE) (erule mp)
  with d m t r' show ?thesis by (intro conjI)
qed

text \<open>
  C10. In fuzzy mode the records without a brand name share the bucket of the empty
  brand and are clustered there: the two records below have an empty brand name and
  product names of similarity \<open>22/23\<close>, above the shipped threshold \<open>0.9\<close>, and they
  are returned as one cluster; in exact mode the same input gives no cluster.
\<close>
theorem empty_brand_fuzzy_cluster:
  "brand_name unbranded_vodka = [] \<and> brand_name unbranded_vodka_spaced = []
   \<and> ratio (str_lower (product_name unbranded_vodka))
            (str_lower (product_name unbranded_vodka_spaced)) = 22 / 23
   \<and> similarity_threshold CONFIG = 9 / 10
   \<and> find_duplicates CONFIG [unbranded_vodka, unbranded_vodka_spaced] False
        = [[unbranded_vodka, unbranded_vodka_spaced]]
   \<and> find_duplicates CONFIG [unbranded_vodka, unbranded_vodka_spaced] True = []"
  by code_simp


section \<open>Cross-Dataset Reconciler: properties\<close>

text \<open>A current record and two backup records, the second of which matches it.\<close>

definition current_vodka :: product where
  "current_vodka = empty_product\<lparr>brand_name := ''Smirnoff'', product_name := ''Vodka 750ml'',
     descriptors := ''clear spirit''\<rparr>"

definition backup_other :: product where
  "backup_other = empty_product\<lparr>brand_name := ''Absolut'', product_name := ''Vodka'',
     gluten_free_score := ''3'', descriptors := ''swedish''\<rparr>"

definition backup_vodka :: product where
  "backup_vodka = empty_product\<lparr>brand_name := ''SMIRNOFF'', product_name := ''vodka 750 ml'',
     gluten_free_score := ''5'', descriptors := ''  ''\<rparr>"

lemma str_strip_Nil [simp]: "str_strip [] = []"
  by (simp add: str_strip_def)

lemma best_match_loop_None:
  "best_match_loop fl cfg cur bps (bm, bs) = (None, s) \<Longrightarrow>
   bm = None \<and> s = bs
   \<and> (\<forall>b \<in> set bps. \<not> (bs < avg_score fl cfg cur b \<and> to_float fl (fuzzy_match_threshold cfg) \<le> avg_score fl cfg cur b))"
proof (induction bps arbitrary: bm bs)
  case Nil
  then show ?case by simp
next
  case (Cons b bps)
  show ?case
  proof (cases "bs < avg_score fl cfg cur b \<and> to_float fl (fuzzy_match_threshold cfg) \<le> avg_score fl cfg cur b")
    case True
    then have "best_match_loop fl cfg cur bps (Some b, avg_score fl cfg cur b) = (None, s)"
      using Cons.prems by (simp add: Let_def)
    from Cons.IH[OF this] show ?thesis by simp
  next
    case False
    then have "best_match_loop fl cfg cur bps (bm, bs) = (None, s)"
      using Cons.prems by (auto simp: Let_def split: if_splits)
    from Cons.IH[OF this] show ?thesis using False by simp
  qed
qed

lemma best_match_loop_Some:
  "best_match_loop fl cfg cur bps (bm, bs) = (Some m, s) \<Longrightarrow>
   (bm = Some m \<and> s = bs
     \<and> (\<forall>b \<in> set bps. \<not> (bs < avg_score fl cfg cur b \<and> to_float fl (fuzzy_match_threshold cfg) \<le> avg_score fl cfg cur b)))
   \<or> (\<exists>pre post. bps = pre @ m # post \<and> s = avg_score fl cfg cur m
         \<and> to_float fl (fuzzy_match_threshold cfg) \<le> avg_score fl cfg cur m \<and> bs < avg_score fl cfg cur m
         \<and> (\<forall>b \<in> set pre. avg_score fl cfg cur b < avg_score fl cfg cur m)
         \<and> (\<forall>b \<in> set post. to_float fl (fuzzy_match_threshold cfg) \<le> avg_score fl cfg cur b
                             \<longrightarrow> avg_score fl cfg cur b \<le> avg_score fl cfg cur m))"
proof (induction bps arbitrary: bm bs)
  case Nil
  then show ?case by simp
next
  case (Cons b bps)
  let ?A = "avg_score fl cfg cur"
  let ?thr = "to_float fl (fuzzy_match_threshold cfg)"
  show ?case
  proof (cases "bs < ?A b \<and> ?thr \<le> ?A b")
    case True
    then have run: "best_match_loop fl cfg cur bps (Some b, ?A b) = (Some m, s)"
      using Cons.prems by (simp add: Let_def)
    from Cons.IH[OF run] show ?thesis
    proof (elim disjE conjE exE)
      assume eq: "Some b = Some m" "s = ?A b"
        and no: "\<forall>x \<in> set bps. \<not> (?A b < ?A x \<and> ?thr \<le> ?A x)"
      have "b # bps = [] @ m # bps" using eq by simp
      moreover have "\<forall>x \<in> set bps. ?thr \<le> ?A x \<longrightarrow> ?A x \<le> ?A m"
        using no eq by auto
      ultimately have "\<exists>pre post. b # bps = pre @ m # post \<and> s = ?A m
         \<and> ?thr \<le> ?A m \<and> bs < ?A m
         \<and> (\<forall>x \<in> set pre. ?A x < ?A m)
         \<and> (\<forall>x \<in> set post. ?thr \<le> ?A x \<longrightarrow> ?A x \<le> ?A m)"
        using eq True by (intro exI[of _ "[]"] exI[of _ bps]) auto
      then show ?thesis by blast
    next
      fix pre post
      assume h: "bps = pre @ m # post" "s = ?A m" "?thr \<le> ?A m" "?A b < ?A m"
        "\<forall>x \<in> set pre. ?A x < ?A m" "\<forall>x \<in> set post. ?thr \<le> ?A x \<longrightarrow> ?A x \<le> ?A m"
      have "b # bps = (b # pre) @ m # post" using h(1) by simp
      moreover have "\<forall>x \<in> set (b # pre). ?A x < ?A m" using h by simp
      moreover have "bs < ?A m" using True h(4) by (auto intro: less_trans)
      ultimately have "\<exists>pre post. b # bps = pre @ m # post \<and> s = ?A m
         \<and> ?thr \<le> ?A m \<and> bs < ?A m
         \<and> (\<forall>x \<in> set pre. ?A x < ?A m)
         \<and> (\<forall>x \<in> set post. ?thr \<le> ?A x \<longrightarrow> ?A x \<le> ?A m)"
        using h by blast
      then show ?thesis by blast
    qed
  next
    case False
    then have run: "best_match_loop fl cfg cur bps (bm, bs) = (Some m, s)"
      using Cons.prems by (auto simp: Let_def split: if_splits)
    from Cons.IH[OF run] show ?thesis
    proof (elim disjE conjE exE)
      assume "bm = Some m" "s = bs"
        "\<forall>x \<in> set bps. \<not> (bs < ?A x \<and> ?thr \<le> ?A x)"
      then show ?thesis using False by simp
    next
      fix pre post
      assume h: "bps = pre @ m # post" "s = ?A m" "?thr \<le> ?A m" "bs < ?A m"
        "\<forall>x \<in> set pre. ?A x < ?A m" "\<forall>x \<in> set post. ?thr \<le> ?A x \<longrightarrow> ?A x \<le> ?A m"
      have "?A b < ?A m"
      proof (cases "bs < ?A b")
        case True
        with False have "?A b < to_float fl (fuzzy_match_threshold cfg)" by (simp add: not_le)
        then show ?thesis using h(3) by (rule less_le_trans)
      next
        case False
        then have "?A b \<le> bs" by (simp add: not_less)
        with h(4) show ?thesis by (auto intro: le_less_trans)
      qed
      then have "\<forall>x \<in> set (b # pre). ?A x < ?A m" using h(5) by simp
      moreover have "b # bps = (b # pre) @ m # post" using h(1) by simp
      ultimately have "\<exists>pre post. b # bps = pre @ m # post \<and> s = ?A m
         \<and> ?thr \<le> ?A m \<and> bs < ?A m
         \<and> (\<forall>x \<in> set pre. ?A x < ?A m)
         \<and> (\<forall>x \<in> set post. ?thr \<le> ?A x \<longrightarrow> ?A x \<le> ?A m)"
        using h by blast
      then show ?thesis by blast
    qed
  qed
qed

lemma restore_product_None:
  "find_best_match fl cfg cur bps = (None, s) \<Longrightarrow> restore_product fl cfg bps cur = cur"
  by (simp add: restore_product_def)

lemma restore_product_Some:
  "find_best_match fl cfg cur bps = (Some m, s) \<Longrightarrow> to_float fl (fuzzy_match_threshold cfg) \<le> s \<Longrightarrow>
   restore_product fl cfg bps cur
     = cur\<lparr>gluten_free_score :=
              (if str_strip (gluten_free_score m) \<noteq> [] then gluten_free_score m
               else gluten_free_score cur),
            descriptors :=
              (if str_strip (descriptors m) \<noteq> [] then descriptors m else descriptors cur)\<rparr>"
  by (auto simp: restore_product_def Let_def)

lemma backup_rows_total:
  "column_mapping \<noteq> [] \<Longrightarrow> \<exists>backup_products. backup_rows column_mapping rows = Inr backup_products"
  by (induction rows) auto

lemma restore_from_backup_raises:
  "1 < length backup_data \<Longrightarrow>
   restore_from_backup fl cfg current_products backup_data [] = Inl ValueError"
  by (cases backup_data; cases "tl backup_data") (simp_all add: restore_from_backup_def)

lemma restore_from_backup_returns:
  assumes "backup_column_mapping \<noteq> [] \<or> length backup_data \<le> 1"
  shows "\<exists>out. restore_from_backup fl cfg current_products backup_data backup_column_mapping
                 = Inr out"
proof (cases "1 < length backup_data")
  case True
  with assms have "backup_column_mapping \<noteq> []" by simp
  from backup_rows_total[OF this, of "tl backup_data"] obtain ps where
    "backup_rows backup_column_mapping (tl backup_data) = Inr ps" by blast
  then show ?thesis using True by (simp add: restore_from_backup_def)
next
  case False
  then show ?thesis by (simp add: restore_from_backup_def)
qed

text \<open>
  The contract on records: when some backup record has an average similarity above
  \<open>0.0\<close> and at least the threshold, \<open>find_best_match\<close> returns the first backup
  record of highest average similarity, and the restored record is the current one
  with \<open>gluten_free_score\<close> and \<open>descriptors\<close> taken from it, each only when not empty
  after trimming; otherwise no record is found and the current record is unchanged.
\<close>
lemma reconcile_contract:
  "if \<exists>b \<in> set bps. to_float fl 0 < avg_score fl cfg cur b \<and> to_float fl (fuzzy_match_threshold cfg) \<le> avg_score fl cfg cur b
    then \<exists>pre m post. bps = pre @ m # post
           \<and> (\<forall>b \<in> set pre. avg_score fl cfg cur b < avg_score fl cfg cur m)
           \<and> (\<forall>b \<in> set bps. avg_score fl cfg cur b \<le> avg_score fl cfg cur m)
           \<and> find_best_match fl cfg cur bps = (Some m, avg_score fl cfg cur m)
           \<and> restore_product fl cfg bps cur
               = cur\<lparr>gluten_free_score :=
                        (if str_strip (gluten_free_score m) \<noteq> [] then gluten_free_score m
                         else gluten_free_score cur),
                      descriptors :=
                        (if str_strip (descriptors m) \<noteq> [] then descriptors m
                         else descriptors cur)\<rparr>
    else find_best_match fl cfg cur bps = (None, to_float fl 0)
         \<and> restore_product fl cfg bps cur = cur"
proof -
  let ?A = "avg_score fl cfg cur"
  let ?thr = "to_float fl (fuzzy_match_threshold cfg)"
  let ?cond = "\<exists>b \<in> set bps. to_float fl 0 < ?A b \<and> ?thr \<le> ?A b"
  obtain bm s where r: "find_best_match fl cfg cur bps = (bm, s)"
    by (cases "find_best_match fl cfg cur bps")
  then have loop: "best_match_loop fl cfg cur bps (None, to_float fl 0) = (bm, s)"
    by (simp add: find_best_match_def)
  have found: "\<exists>pre m post. bps = pre @ m # post
           \<and> (\<forall>b \<in> set pre. ?A b < ?A m) \<and> (\<forall>b \<in> set bps. ?A b \<le> ?A m)
           \<and> find_best_match fl cfg cur bps = (Some m, ?A m)
           \<and> restore_product fl cfg bps cur
               = cur\<lparr>gluten_free_score :=
                        (if str_strip (gluten_free_score m) \<noteq> [] then gluten_free_score m
                         else gluten_free_score cur),
                      descriptors :=
                        (if str_strip (descriptors m) \<noteq> [] then descriptors m
                         else descriptors cur)\<rparr>"
    if c: ?cond
  proof (cases bm)
    case None
    with loop best_match_loop_None[of fl cfg cur bps None "to_float fl 0" s] c show ?thesis by blast
  next
    case (Some m)
    with loop have "best_match_loop fl cfg cur bps (None, to_float fl 0) = (Some m, s)" by simp
    from best_match_loop_Some[OF this] obtain pre post where
      h: "bps = pre @ m # post" "s = ?A m" "?thr \<le> ?A m" "to_float fl 0 < ?A m"
        "\<forall>x \<in> set pre. ?A x < ?A m" "\<forall>x \<in> set post. ?thr \<le> ?A x \<longrightarrow> ?A x \<le> ?A m"
      by blast
    have top: "\<forall>b \<in> set bps. ?A b \<le> ?A m"
    proof
      fix b assume "b \<in> set bps"
      then consider "b \<in> set pre" | "b = m" | "b \<in> set post" using h(1) by auto
      then show "?A b \<le> ?A m"
      proof cases
        case 1
        then show ?thesis using h(5) by (simp add: less_imp_le)
      next
        case 2
        then show ?thesis by simp
      next
        case 3
        show ?thesis
        proof (cases "?thr \<le> ?A b")
          case True
          then show ?thesis using 3 h(6) by blast
        next
          case False
          then have "?A b < ?thr" by (simp add: not_le)
          then have "?A b < ?A m" using h(3) by (rule less_le_trans)
          then show ?thesis by (rule less_imp_le)
        qed
      qed
    qed
    have fb: "find_best_match fl cfg cur bps = (Some m, ?A m)" using r Some h(2) by simp
    from restore_product_Some[OF fb h(3)] h(1) h(5) top fb show ?thesis by blast
  qed
  have missing: "find_best_match fl cfg cur bps = (None, to_float fl 0) \<and> restore_product fl cfg bps cur = cur"
    if c: "\<not> ?cond"
  proof (cases bm)
    case None
    with loop best_match_loop_None[of fl cfg cur bps None "to_float fl 0" s] have "s = to_float fl 0" by simp
    with r None have fb: "find_best_match fl cfg cur bps = (None, to_float fl 0)" by simp
    from restore_product_None[OF fb] fb show ?thesis by simp
  next
    case (Some m)
    with loop have "best_match_loop fl cfg cur bps (None, to_float fl 0) = (Some m, s)" by simp
    from best_match_loop_Some[OF this] obtain pre post where
      "bps = pre @ m # post" "?thr \<le> ?A m" "to_float fl 0 < ?A m" by blast
    then have ?cond by auto
    with c show ?thesis by simp
  qed
  show ?thesis
  proof (cases ?cond)
    case True
    from found[OF True] True show ?thesis by simp
  next
    case False
    from missing[OF False] False show ?thesis by simp
  qed
qed


text \<open>
  C2. The claim gives every current record back: restored from its best backup match,
  or unmodified when no backup record matches. \<open>restore_from_backup\<close> builds the backup
  records first, and there \<open>max(backup_column_mapping.values())\<close> raises on an empty
  mapping: a backup table whose one header matches no rule of the Schema Mapper has
  the empty Field Index, no backup record matches, and the current record is not
  returned, whatever the float operations are.
\<close>
theorem restore_raises_without_backup_columns:
  "get_column_mapping [''Notes''] = []
   \<and> restore_from_backup fl CONFIG [current_vodka] [[''Notes''], [''discontinued'']]
         (get_column_mapping [''Notes'']) = Inl ValueError"
proof -
  have m: "get_column_mapping [''Notes''] = []" by code_simp
  have "restore_from_backup fl CONFIG [current_vodka] [[''Notes''], [''discontinued'']] []
          = Inl ValueError"
    by (rule restore_from_backup_raises) simp
  with m show ?thesis by simp
qed


section \<open>Brand consolidation: properties\<close>

text \<open>The records of the brand scenario.\<close>

definition baileys_plain :: product where
  "baileys_plain = empty_product\<lparr>brand_name := ''Baileys'', product_name := ''Original''\<rparr>"

definition baileys_apostrophe :: product where
  "baileys_apostrophe = empty_product\<lparr>brand_name := ''Bailey's'', product_name := ''Original''\<rparr>"

definition jack_caps :: product where
  "jack_caps = empty_product\<lparr>brand_name := ''JACK DANIELS'', product_name := ''Old No. 7''\<rparr>"

definition jack_title :: product where
  "jack_title = empty_product\<lparr>brand_name := ''Jack Daniels'', product_name := ''Old No. 7''\<rparr>"

text \<open>The score of a brand that is not the empty string.\<close>
definition brand_score :: "string \<Rightarrow> int" where
  "brand_score brand =
     (if CHR 0x27 \<in> set brand then 10 else 0)
     + (if str_isupper brand then - 5 else if is_upper_char (hd brand) then 5 else 0)
     - int (length (str_split brand)) - int (str_count brand ''  '')"

text \<open>
  The normalized key of a brand as the specification words it: the brand in lower
  case, without its apostrophes and its double quotes.
\<close>
definition normalized_brand_key :: "string \<Rightarrow> string" where
  "normalized_brand_key brand =
     filter (\<lambda>c. c \<noteq> CHR 0x27 \<and> c \<noteq> CHR 0x22) (str_lower brand)"

text \<open>
  The group of \<open>brand\<close>: the brand names of the records with a brand name of the same
  normalized key, in the order of the records, with repetitions.
\<close>
definition brand_alternatives :: "'a product_scheme list \<Rightarrow> string \<Rightarrow> string list" where
  "brand_alternatives products brand =
     map brand_name
       (filter (\<lambda>p. brand_name p \<noteq> []
                     \<and> normalized_brand_key (brand_name p) = normalized_brand_key brand) products)"

lemma brand_group_key_normalized: "brand_group_key brand = normalized_brand_key brand"
  by (auto simp: brand_group_key_def normalized_brand_key_def remove_char_def intro: filter_cong)

text \<open>\<open>w\<close> is the first of the alternatives with the highest score.\<close>
definition first_best :: "string list \<Rightarrow> string \<Rightarrow> bool" where
  "first_best alternatives w =
     (\<exists>pre post. alternatives = pre @ w # post
        \<and> (\<forall>a \<in> set pre. brand_score a < brand_score w)
        \<and> (\<forall>a \<in> set post. brand_score a \<le> brand_score w))"

lemma score_brand_nonempty: "brand \<noteq> [] \<Longrightarrow> score_brand brand = Inr (brand_score brand)"
  by (cases brand) (simp_all add: score_brand_def brand_score_def Let_def)

lemma scored_alternatives_nonempty:
  "\<forall>a \<in> set alternatives. a \<noteq> [] \<Longrightarrow>
   scored_alternatives alternatives = Inr (map (\<lambda>a. (a, brand_score a)) alternatives)"
  by (induction alternatives) (simp_all add: score_brand_nonempty)

lemma max_by_score_first:
  "\<exists>w. max_by_score (b, brand_score b) (map (\<lambda>a. (a, brand_score a)) xs) = (w, brand_score w)
      \<and> first_best (b # xs) w"
proof (induction xs arbitrary: b rule: rev_induct)
  case Nil
  have "first_best [b] b" unfolding first_best_def by (intro exI[of _ "[]"]) simp
  then show ?case by simp
next
  case (snoc x xs)
  have app: "max_by_score best (ys @ [y]) = (if snd (max_by_score best ys) < snd y then y
                                              else max_by_score best ys)" for best ys and y :: "string \<times> int"
    by (induction ys arbitrary: best) simp_all
  from snoc[of b] obtain w where
    w: "max_by_score (b, brand_score b) (map (\<lambda>a. (a, brand_score a)) xs) = (w, brand_score w)"
    and fb: "first_best (b # xs) w" by blast
  from fb obtain pre post where
    d: "b # xs = pre @ w # post" "\<forall>a \<in> set pre. brand_score a < brand_score w"
      "\<forall>a \<in> set post. brand_score a \<le> brand_score w"
    unfolding first_best_def by blast
  show ?case
  proof (cases "brand_score w < brand_score x")
    case True
    have "b # xs @ [x] = (b # xs) @ x # []" by simp
    moreover have "\<forall>a \<in> set (b # xs). brand_score a < brand_score x"
    proof
      fix a assume "a \<in> set (b # xs)"
      then have "a \<in> set pre \<or> a = w \<or> a \<in> set post" by (subst (asm) d(1)) auto
      then have "brand_score a \<le> brand_score w" using d(2,3) by auto
      then show "brand_score a < brand_score x" using True by simp
    qed
    ultimately have "first_best (b # xs @ [x]) x"
      unfolding first_best_def by (intro exI[of _ "b # xs"] exI[of _ "[]"]) simp
    then show ?thesis using w True by (simp add: app)
  next
    case False
    have "b # xs @ [x] = pre @ w # (post @ [x])" using d(1) by simp
    moreover have "\<forall>a \<in> set (post @ [x]). brand_score a \<le> brand_score w"
      using d(3) False by auto
    ultimately have "first_best (b # xs @ [x]) w"
      unfolding first_best_def using d(2) by blast
    then show ?thesis using w False by (simp add: app)
  qed
qed

lemma choose_best_brand_name_first:
  assumes "alternatives \<noteq> []" "\<forall>a \<in> set alternatives. a \<noteq> []"
  shows "\<exists>w. choose_best_brand_name alternatives = Inr w \<and> first_best alternatives w"
proof -
  obtain b xs where alt: "alternatives = b # xs" using assms(1) by (cases alternatives) auto
  from max_by_score_first[of b xs] obtain w where
    "max_by_score (b, brand_score b) (map (\<lambda>a. (a, brand_score a)) xs) = (w, brand_score w)"
    "first_best (b # xs) w" by blast
  moreover have "scored_alternatives alternatives
                   = Inr ((b, brand_score b) # map (\<lambda>a. (a, brand_score a)) xs)"
    using scored_alternatives_nonempty[OF assms(2)] by (simp add: alt)
  ultimately show ?thesis
    using assms(1) by (simp add: choose_best_brand_name_def alt[symmetric])
qed

lemma first_best_member: "first_best alternatives w \<Longrightarrow> w \<in> set alternatives"
  by (auto simp: first_best_def)

lemma first_best_unique: "first_best alternatives w \<Longrightarrow> first_best alternatives w' \<Longrightarrow> w = w'"
proof -
  assume a: "first_best alternatives w" and b: "first_best alternatives w'"
  from a obtain pre post where
    1: "alternatives = pre @ w # post" "\<forall>a \<in> set pre. brand_score a < brand_score w"
      "\<forall>a \<in> set post. brand_score a \<le> brand_score w"
    unfolding first_best_def by blast
  from b obtain pre' post' where
    2: "alternatives = pre' @ w' # post'" "\<forall>a \<in> set pre'. brand_score a < brand_score w'"
      "\<forall>a \<in> set post'. brand_score a \<le> brand_score w'"
    unfolding first_best_def by blast
  have eq: "pre @ w # post = pre' @ w' # post'" using 1(1) 2(1) by simp
  have "brand_score w' \<le> brand_score w"
    using first_best_member[OF b] 1 by (subst (asm) 1(1)) (auto simp: less_imp_le)
  moreover have "brand_score w \<le> brand_score w'"
    using first_best_member[OF a] 2 by (subst (asm) 2(1)) (auto simp: less_imp_le)
  ultimately have s: "brand_score w = brand_score w'" by simp
  have "w \<notin> set pre'" using 2(2) s by auto
  moreover have "w' \<notin> set pre" using 1(2) s by auto
  ultimately show "w = w'"
    using eq by (auto simp: append_eq_append_conv2 Cons_eq_append_conv append_eq_Cons_conv)
qed

text \<open>The brand that \<open>choose_best_brand_name\<close> returns.\<close>
definition best_of :: "string list \<Rightarrow> string" where
  "best_of alternatives = (case choose_best_brand_name alternatives of Inr w \<Rightarrow> w | Inl e \<Rightarrow> [])"

lemma dict_set_map_of: "map_of (dict_set k v d) = (map_of d)(k \<mapsto> v)"
  by (induction d) auto

lemma map_alternatives_map_of:
  "map_of (map_alternatives best alternatives m) a
     = (if a \<in> set alternatives \<and> a \<noteq> best then Some best else map_of m a)"
  by (induction alternatives arbitrary: m) (auto simp: dict_set_map_of)

lemma brand_mapping_of_map_of:
  assumes "distinct (map fst groups)"
    and "\<forall>e \<in> set groups. snd e \<noteq> [] \<and> (\<forall>a \<in> set (snd e). a \<noteq> [] \<and> brand_group_key a = fst e)"
  shows "\<exists>m'. brand_mapping_of groups m = Inr m'
     \<and> (\<forall>a. map_of m' a =
           (case map_of groups (brand_group_key a) of
              None \<Rightarrow> map_of m a
            | Some alternatives \<Rightarrow>
                if 1 < length alternatives \<and> a \<in> set alternatives \<and> a \<noteq> best_of alternatives
                then Some (best_of alternatives) else map_of m a))"
  using assms
proof (induction groups arbitrary: m)
  case Nil
  then show ?case by simp
next
  case (Cons e groups)
  obtain k alts where e: "e = (k, alts)" by (cases e)
  have mem: "alts \<noteq> []" "\<forall>a \<in> set alts. a \<noteq> [] \<and> brand_group_key a = k"
    using Cons.prems(2) by (auto simp: e)
  have fresh: "map_of groups k = None"
    using Cons.prems(1) by (simp add: e map_of_eq_None_iff)
  have rest: "distinct (map fst groups)"
    "\<forall>e \<in> set groups. snd e \<noteq> [] \<and> (\<forall>a \<in> set (snd e). a \<noteq> [] \<and> brand_group_key a = fst e)"
    using Cons.prems by simp_all
  from choose_best_brand_name_first[OF mem(1)] mem(2) obtain w where
    w: "choose_best_brand_name alts = Inr w" by blast
  then have bo: "best_of alts = w" by (simp add: best_of_def)
  define m1 where "m1 = (if 1 < length alts then map_alternatives w alts m else m)"
  have step: "brand_mapping_of (e # groups) m = brand_mapping_of groups m1"
    by (simp add: e w m1_def)
  have m1: "map_of m1 a = (if 1 < length alts \<and> a \<in> set alts \<and> a \<noteq> w then Some w else map_of m a)"
    for a by (simp add: m1_def map_alternatives_map_of)
  from Cons.IH[OF rest, of m1] obtain m' where
    m': "brand_mapping_of groups m1 = Inr m'"
    "\<And>a. map_of m' a =
           (case map_of groups (brand_group_key a) of
              None \<Rightarrow> map_of m1 a
            | Some alternatives \<Rightarrow>
                if 1 < length alternatives \<and> a \<in> set alternatives \<and> a \<noteq> best_of alternatives
                then Some (best_of alternatives) else map_of m1 a)"
    by blast
  have "map_of m' a =
           (case map_of (e # groups) (brand_group_key a) of
              None \<Rightarrow> map_of m a
            | Some alternatives \<Rightarrow>
                if 1 < length alternatives \<and> a \<in> set alternatives \<and> a \<noteq> best_of alternatives
                then Some (best_of alternatives) else map_of m a)" for a
  proof (cases "brand_group_key a = k")
    case True
    then show ?thesis using m'(2)[of a] fresh m1[of a] bo by (simp add: e)
  next
    case False
    then have "a \<notin> set alts" using mem(2) by blast
    then have "map_of m1 a = map_of m a" using m1[of a] by simp
    then show ?thesis using m'(2)[of a] False by (simp add: e split: option.splits)
  qed
  then show ?case using step m'(1) by simp
qed

lemma brand_groups_of_group_into:
  "brand_groups_of products d
     = group_into (\<lambda>p. brand_name p \<noteq> []) (\<lambda>p. brand_group_key (brand_name p)) brand_name
         products d"
  by (induction products arbitrary: d) simp_all

lemma dict_get_Some: "dict_get d k \<noteq> [] \<Longrightarrow> map_of d k = Some (dict_get d k)"
  by (auto simp: dict_get_def split: option.splits)

lemma brand_rewrite:
  "\<exists>f. normalize_brand_alternatives products
          = Inr (map (\<lambda>p. p\<lparr>brand_name := f (brand_name p)\<rparr>) products)
       \<and> f [] = []
       \<and> (\<forall>p \<in> set products. brand_name p \<noteq> [] \<longrightarrow>
             first_best (brand_alternatives products (brand_name p)) (f (brand_name p)))"
proof -
  let ?sel = "\<lambda>p::'a product_scheme. brand_name p \<noteq> []"
  let ?key = "\<lambda>p::'a product_scheme. brand_group_key (brand_name p)"
  let ?groups = "group_into ?sel ?key brand_name products []"
  have get: "dict_get ?groups k = map brand_name (filter (\<lambda>x. ?sel x \<and> ?key x = k) products)" for k
  proof -
    have "dict_get [] k = ([] :: string list)" by (simp add: dict_get_def)
    then show ?thesis by (simp only: group_into_get append_Nil)
  qed
  have dist: "distinct (map fst ?groups)" by (rule group_into_distinct) simp
  have members: "\<forall>e \<in> set ?groups. snd e \<noteq> []
                   \<and> (\<forall>a \<in> set (snd e). a \<noteq> [] \<and> brand_group_key a = fst e)"
  proof
    fix e assume "e \<in> set ?groups"
    then have "(fst e, snd e) \<in> set ?groups" by simp
    from group_into_member[OF this] show "snd e \<noteq> []
                   \<and> (\<forall>a \<in> set (snd e). a \<noteq> [] \<and> brand_group_key a = fst e)"
      by auto
  qed
  from brand_mapping_of_map_of[OF dist members, of "[]"] obtain m' where
    m': "brand_mapping_of ?groups [] = Inr m'"
    and look0: "\<And>a. map_of m' a =
           (case map_of ?groups (brand_group_key a) of
              None \<Rightarrow> map_of [] a
            | Some alternatives \<Rightarrow>
                if 1 < length alternatives \<and> a \<in> set alternatives \<and> a \<noteq> best_of alternatives
                then Some (best_of alternatives) else map_of [] a)"
    by blast
  have look: "map_of m' a =
           (case map_of ?groups (brand_group_key a) of
              None \<Rightarrow> None
            | Some alternatives \<Rightarrow>
                if 1 < length alternatives \<and> a \<in> set alternatives \<and> a \<noteq> best_of alternatives
                then Some (best_of alternatives) else None)" for a
    by (simp add: look0 split: option.splits)
  define f where "f a = (case map_of m' a of Some w \<Rightarrow> w | None \<Rightarrow> a)" for a
  have ap: "apply_brand_mapping m' p = p\<lparr>brand_name := f (brand_name p)\<rparr>" for p :: "'a product_scheme"
    by (simp add: apply_brand_mapping_def f_def split: option.splits)
  have out: "normalize_brand_alternatives products
           = Inr (map (\<lambda>p. p\<lparr>brand_name := f (brand_name p)\<rparr>) products)"
    using m' by (simp add: normalize_brand_alternatives_def brand_groups_of_group_into ap)
  have "map_of m' [] = None"
  proof (cases "map_of ?groups (brand_group_key [])")
    case None
    then show ?thesis using look[of "[]"] by simp
  next
    case (Some alts)
    then have "(brand_group_key [], alts) \<in> set ?groups" by (rule map_of_SomeD)
    with members have "snd (brand_group_key [], alts) \<noteq> []
        \<and> (\<forall>a \<in> set (snd (brand_group_key [], alts)).
              a \<noteq> [] \<and> brand_group_key a = fst (brand_group_key [], alts))"
      by (rule bspec)
    then have "\<forall>a \<in> set alts. a \<noteq> []" by simp
    then have "[] \<notin> set alts" by blast
    then show ?thesis using look[of "[]"] Some by simp
  qed
  then have fnil: "f [] = []" by (simp add: f_def)
  have win: "first_best (brand_alternatives products (brand_name p)) (f (brand_name p))"
    if p: "p \<in> set products" and ne: "brand_name p \<noteq> []" for p
  proof -
    let ?b = "brand_name p"
    let ?alts = "brand_alternatives products ?b"
    have alts: "dict_get ?groups (brand_group_key ?b) = ?alts"
      by (simp add: get brand_alternatives_def flip: brand_group_key_normalized)
    have bmem: "?b \<in> set ?alts" using p ne by (auto simp: brand_alternatives_def)
    then have "?alts \<noteq> []" by auto
    with alts have some: "map_of ?groups (brand_group_key ?b) = Some ?alts"
      using dict_get_Some[of ?groups "brand_group_key ?b"] by simp
    have nonempty: "\<forall>a \<in> set ?alts. a \<noteq> []" by (auto simp: brand_alternatives_def)
    from choose_best_brand_name_first[OF \<open>?alts \<noteq> []\<close> nonempty] obtain w where
      w: "choose_best_brand_name ?alts = Inr w" "first_best ?alts w" by blast
    then have bo: "best_of ?alts = w" by (simp add: best_of_def)
    have "f ?b = w"
    proof (cases "1 < length ?alts \<and> ?b \<noteq> w")
      case True
      then show ?thesis using look[of ?b] some bmem bo by (simp add: f_def)
    next
      case False
      then have none: "map_of m' ?b = None" using look[of ?b] some bo by auto
      have "?b = w"
      proof (cases "?b = w")
        case True
        then show ?thesis .
      next
        case neq: False
        with False have "length ?alts \<le> 1" by simp
        with bmem have "?alts = [?b]" by (cases ?alts) auto
        with first_best_member[OF w(2)] show ?thesis by simp
      qed
      then show ?thesis using none by (simp add: f_def)
    qed
    then show ?thesis using w(2) by simp
  qed
  show ?thesis using out fnil win by blast
qed

text \<open>
  C8. Brand consolidation never fails and rewrites the brand names by a function \<open>f\<close>
  of the brand name: a record without a brand name is unchanged, and the brand name
  of every other record becomes the winner of its group, the group being the brand
  names of all records with the same normalized key (the brand in lower case without
  its apostrophes and double quotes, \<open>normalized_brand_key\<close>), in the order of the
  records. The winner is the first alternative of the group with the highest score,
  and the score of a brand is \<open>brand_score\<close>: \<open>+10\<close> with an apostrophe, \<open>-5\<close> when
  upper-case, else \<open>+5\<close> when the first letter is a capital, \<open>-1\<close> per word and \<open>-1\<close>
  per double space. The records with the brands "Baileys" and "Bailey's" both get
  "Bailey's"; with two records of the brands "JACK DANIELS" and "Jack Daniels" in
  between, these form a group of their own and both get "Jack Daniels".
\<close>
theorem brand_consolidation:
  "(\<exists>f. normalize_brand_alternatives products
           = Inr (map (\<lambda>p. p\<lparr>brand_name := f (brand_name p)\<rparr>) products)
        \<and> f [] = []
        \<and> (\<forall>p \<in> set products. brand_name p \<noteq> [] \<longrightarrow>
              first_best (brand_alternatives products (brand_name p)) (f (brand_name p))))
   \<and> (\<forall>brand. brand \<noteq> [] \<longrightarrow> score_brand brand = Inr (brand_score brand))
   \<and> normalize_brand_alternatives [baileys_plain, baileys_apostrophe]
       = Inr [baileys_plain\<lparr>brand_name := ''Bailey's''\<rparr>, baileys_apostrophe]
   \<and> normalize_brand_alternatives [baileys_plain, jack_caps, baileys_apostrophe, jack_title]
       = Inr [baileys_plain\<lparr>brand_name := ''Bailey's''\<rparr>,
              jack_caps\<lparr>brand_name := ''Jack Daniels''\<rparr>, baileys_apostrophe, jack_title]"
proof -
  have ex: "normalize_brand_alternatives [baileys_plain, baileys_apostrophe]
       = Inr [baileys_plain\<lparr>brand_name := ''Bailey's''\<rparr>, baileys_apostrophe]"
    by code_simp
  have ex2: "normalize_brand_alternatives [baileys_plain, jack_caps, baileys_apostrophe, jack_title]
       = Inr [baileys_plain\<lparr>brand_name := ''Bailey's''\<rparr>,
              jack_caps\<lparr>brand_name := ''Jack Daniels''\<rparr>, baileys_apostrophe, jack_title]"
    by code_simp
  from brand_rewrite[of products] score_brand_nonempty ex ex2 show ?thesis by blast
qed

theorem brand_consolidation_witness:
  "baileys_plain \<in> set [baileys_plain, baileys_apostrophe]
   \<and> brand_name baileys_plain \<noteq> []
   \<and> (\<exists>f. normalize_brand_alternatives [baileys_plain, baileys_apostrophe]
              = Inr (map (\<lambda>p. p\<lparr>brand_name := f (brand_name p)\<rparr>)
                       [baileys_plain, baileys_apostrophe])
          \<and> first_best (brand_alternatives [baileys_plain, baileys_apostrophe]
                           (brand_name baileys_plain))
               (f (brand_name baileys_plain)))
   \<and> brand_alternatives [baileys_plain, baileys_apostrophe] (brand_name baileys_plain)
       = [''Baileys'', ''Bailey's'']
   \<and> brand_score ''Baileys'' = 4 \<and> brand_score ''Bailey's'' = 14"
proof -
  have p: "baileys_plain \<in> set [baileys_plain, baileys_apostrophe]" by simp
  have ne: "brand_name baileys_plain \<noteq> []" by code_simp
  from brand_consolidation [of "[baileys_plain, baileys_apostrophe]", THEN conjunct1]
  obtain f where
    out: "normalize_brand_alternatives [baileys_plain, baileys_apostrophe]
              = Inr (map (\<lambda>p. p\<lparr>brand_name := f (brand_name p)\<rparr>)
                       [baileys_plain, baileys_apostrophe])"
    and win: "\<forall>p \<in> set [baileys_plain, baileys_apostrophe]. brand_name p \<noteq> [] \<longrightarrow>
              first_best (brand_alternatives [baileys_plain, baileys_apostrophe] (brand_name p))
                (f (brand_name p))"
    by blast
  from win p ne have "first_best (brand_alternatives [baileys_plain, baileys_apostrophe]
                           (brand_name baileys_plain)) (f (brand_name baileys_plain))"
    by blast
  with out have e: "\<exists>f. normalize_brand_alternatives [baileys_plain, baileys_apostrophe]
              = Inr (map (\<lambda>p. p\<lparr>brand_name := f (brand_name p)\<rparr>)
                       [baileys_plain, baileys_apostrophe])
          \<and> first_best (brand_alternatives [baileys_plain, baileys_apostrophe]
                           (brand_name baileys_plain))
               (f (brand_name baileys_plain))"
    by blast
  have a: "brand_alternatives [baileys_plain, baileys_apostrophe] (brand_name baileys_plain)
       = [''Baileys'', ''Bailey's'']" by code_simp
  have s: "brand_score ''Baileys'' = 4" "brand_score ''Bailey's'' = 14" by code_simp+
  from p ne e a s show ?thesis by (intro conjI)
qed


section \<open>Failure surfacing\<close>

text \<open>
  C9, as stated: an empty header row signals a schema error, an empty cluster signals
  an invariant violation, and no other input condition raises. Neither function has a
  failing branch: the empty header row gives the empty mapping and the empty cluster
  is passed over. And another input condition does raise: restoring from a backup
  table with that empty header row and one data row raises \<open>ValueError\<close>.
\<close>
theorem empty_inputs_counterexample:
  "get_column_mapping [] = [] \<and> merge_duplicates [[]] = ([] :: product list)
   \<and> restore_from_backup exact_floats CONFIG [current_vodka] [[], [''Smirnoff'']]
         (get_column_mapping []) = Inl ValueError"
proof -
  have "restore_from_backup exact_floats CONFIG [current_vodka] [[], [''Smirnoff'']] []
          = Inl ValueError"
    by (rule restore_from_backup_raises) simp
  then show ?thesis by (simp add: get_column_mapping_def)
qed

text \<open>
  C9, amended: building the Field Index from an empty header row returns the empty
  mapping, and an empty cluster at merge time is skipped: it adds no merged record and
  the clusters around it are merged as if it were not there; neither signals an error.
  Brand consolidation raises on no input, and backup restoration raises on no input
  whose Field Index is not empty or whose backup table has no data row.
\<close>
theorem empty_inputs_absorbed:
  "get_column_mapping [] = []
   \<and> merge_duplicates (cs1 @ [] # cs2) = merge_duplicates (cs1 @ cs2)
   \<and> merge_duplicates cs = map merge_group (filter (\<lambda>g. g \<noteq> []) cs)
   \<and> (\<exists>out. normalize_brand_alternatives products = Inr out)
   \<and> (backup_column_mapping \<noteq> [] \<or> length backup_data \<le> 1 \<longrightarrow>
        (\<exists>out. restore_from_backup fl cfg current_products backup_data backup_column_mapping
                  = Inr out))"
proof -
  have "merge_duplicates (cs1 @ [] # cs2) = merge_duplicates (cs1 @ cs2)"
    by (induction cs1) auto
  moreover have "merge_duplicates cs = map merge_group (filter (\<lambda>g. g \<noteq> []) cs)"
    by (induction cs) auto
  moreover have "\<exists>out. normalize_brand_alternatives products = Inr out"
    using brand_rewrite[of products] by blast
  moreover have "backup_column_mapping \<noteq> [] \<or> length backup_data \<le> 1 \<longrightarrow>
        (\<exists>out. restore_from_backup fl cfg current_products backup_data backup_column_mapping
                  = Inr out)"
    using restore_from_backup_returns[of backup_column_mapping backup_data] by blast
  ultimately show ?thesis by (simp add: get_column_mapping_def)
qed

theorem empty_inputs_absorbed_witness:
  "get_column_mapping [''Brand Name'', ''Descriptors''] \<noteq> []
   \<and> (\<exists>out. restore_from_backup exact_floats CONFIG [current_vodka]
                [[''Brand Name'', ''Descriptors''], [''Smirnoff'', ''clear'']]
                (get_column_mapping [''Brand Name'', ''Descriptors'']) = Inr out)"
proof -
  have ne: "get_column_mapping [''Brand Name'', ''Descriptors''] \<noteq> []" by code_simp
  from empty_inputs_absorbed [where backup_column_mapping
        = "get_column_mapping [''Brand Name'', ''Descriptors'']"
      and backup_data = "[[''Brand Name'', ''Descriptors''], [''Smirnoff'', ''clear'']]"
      and fl = exact_floats and cfg = CONFIG and current_products = "[current_vodka]",
      THEN conjunct2, THEN conjunct2, THEN conjunct2, THEN conjunct2]
  have "get_column_mapping [''Brand Name'', ''Descriptors''] \<noteq> []
          \<or> length [[''Brand Name'', ''Descriptors''], [''Smirnoff'', ''clear'']] \<le> 1 \<longrightarrow>
        (\<exists>out. restore_from_backup exact_floats CONFIG [current_vodka]
                [[''Brand Name'', ''Descriptors''], [''Smirnoff'', ''clear'']]
                (get_column_mapping [''Brand Name'', ''Descriptors'']) = Inr out)" .
  with ne show ?thesis by blast
qed


section \<open>Subcategory normalization: properties\<close>

text \<open>\<open>v\<close> is normalized to itself.\<close>
definition subcategory_fixed :: "string \<Rightarrow> bool" where
  "subcategory_fixed v = (normalize_subcategory v = v)"

lemma fixed_values_1:
  "list_all subcategory_fixed
     [''Gifts and Samplers'',
      ''Rose Wines'',
      ''Whiskey'',
      ''Canadian Whiskey'',
      ''London Dry Gin'',
      ''Dark Rum'',
      ''Tequila'',
      ''Mezcal'',
      ''Herbal Liqueur'',
      ''Armagnac'',
      ''Vermouth'',
      ''Soju'']"
  by code_simp

lemma fixed_values_2:
  "list_all subcategory_fixed
     [''Beer'',
      ''Sparkling Wines'',
      ''Scotch Whisky'',
      ''Vodka'',
      ''Plymouth Gin'',
      ''Spiced Rum'',
      ''Blanco Tequila'',
      ''Liqueur'',
      ''Fruit Liqueur'',
      ''Pisco'',
      ''Bitters'',
      ''Baijiu'']"
  by code_simp

lemma fixed_values_3:
  "list_all subcategory_fixed
     [''Red Wines'',
      ''Dessert Wines'',
      ''Bourbon Whiskey'',
      ''Flavored Vodka'',
      ''Rum'',
      ''Gold Rum'',
      ''Reposado Tequila'',
      ''Cream Liqueur'',
      ''Brandy'',
      ''Aperitif'',
      ''Absinthe'']"
  by code_simp

lemma fixed_values_4:
  "list_all subcategory_fixed
     [''White Wines'',
      ''Fortified Wines'',
      ''Rye Whiskey'',
      ''Gin'',
      ''White Rum'',
      ''Aged Rum'',
      ''Anejo Tequila'',
      ''Coffee Liqueur'',
      ''Cognac'',
      ''Digestif'',
      ''Sake'']"
  by code_simp

lemma table_values:
  "list_all (\<lambda>e. snd e \<in> set
     [''Gifts and Samplers'',
      ''Rose Wines'',
      ''Whiskey'',
      ''Canadian Whiskey'',
      ''London Dry Gin'',
      ''Dark Rum'',
      ''Tequila'',
      ''Mezcal'',
      ''Herbal Liqueur'',
      ''Armagnac'',
      ''Vermouth'',
      ''Soju'',
      ''Beer'',
      ''Sparkling Wines'',
      ''Scotch Whisky'',
      ''Vodka'',
      ''Plymouth Gin'',
      ''Spiced Rum'',
      ''Blanco Tequila'',
      ''Liqueur'',
      ''Fruit Liqueur'',
      ''Pisco'',
      ''Bitters'',
      ''Baijiu'',
      ''Red Wines'',
      ''Dessert Wines'',
      ''Bourbon Whiskey'',
      ''Flavored Vodka'',
      ''Rum'',
      ''Gold Rum'',
      ''Reposado Tequila'',
      ''Cream Liqueur'',
      ''Brandy'',
      ''Aperitif'',
      ''Absinthe'',
      ''White Wines'',
      ''Fortified Wines'',
      ''Rye Whiskey'',
      ''Gin'',
      ''White Rum'',
      ''Aged Rum'',
      ''Anejo Tequila'',
      ''Coffee Liqueur'',
      ''Cognac'',
      ''Digestif'',
      ''Sake'']) SUBCATEGORY_NORMALIZATIONS"
  by code_simp

lemma table_values_fixed:
  assumes "(k, v) \<in> set SUBCATEGORY_NORMALIZATIONS"
  shows "normalize_subcategory v = v"
proof -
  from assms table_values have "v \<in> set
     [''Gifts and Samplers'',
      ''Rose Wines'',
      ''Whiskey'',
      ''Canadian Whiskey'',
      ''London Dry Gin'',
      ''Dark Rum'',
      ''Tequila'',
      ''Mezcal'',
      ''Herbal Liqueur'',
      ''Armagnac'',
      ''Vermouth'',
      ''Soju'',
      ''Beer'',
      ''Sparkling Wines'',
      ''Scotch Whisky'',
      ''Vodka'',
      ''Plymouth Gin'',
      ''Spiced Rum'',
      ''Blanco Tequila'',
      ''Liqueur'',
      ''Fruit Liqueur'',
      ''Pisco'',
      ''Bitters'',
      ''Baijiu'',
      ''Red Wines'',
      ''Dessert Wines'',
      ''Bourbon Whiskey'',
      ''Flavored Vodka'',
      ''Rum'',
      ''Gold Rum'',
      ''Reposado Tequila'',
      ''Cream Liqueur'',
      ''Brandy'',
      ''Aperitif'',
      ''Absinthe'',
      ''White Wines'',
      ''Fortified Wines'',
      ''Rye Whiskey'',
      ''Gin'',
      ''White Rum'',
      ''Aged Rum'',
      ''Anejo Tequila'',
      ''Coffee Liqueur'',
      ''Cognac'',
      ''Digestif'',
      ''Sake'']"
    by (auto simp: list_all_iff)
  then have "subcategory_fixed v"
    using fixed_values_1 fixed_values_2 fixed_values_3 fixed_values_4
    by (auto simp: list_all_iff)
  then show ?thesis by (simp add: subcategory_fixed_def)
qed

lemma dropWhile_hd: "xs = [] \<or> \<not> P (hd xs) \<Longrightarrow> dropWhile P xs = xs"
  by (cases xs) auto

lemma str_strip_ends:
  "str_strip s = [] \<or> (\<not> is_space_char (hd (str_strip s)) \<and> \<not> is_space_char (last (str_strip s)))"
proof (cases "str_strip s = []")
  case True
  then show ?thesis by simp
next
  case False
  let ?t = "dropWhile is_space_char s"
  let ?u = "dropWhile is_space_char (rev ?t)"
  have u: "str_strip s = rev ?u" by (simp add: str_strip_def)
  with False have une: "?u \<noteq> []" by simp
  then have "\<not> is_space_char (hd ?u)" by (rule hd_dropWhile)
  then have l: "\<not> is_space_char (last (str_strip s))"
    using une by (simp add: u last_rev)
  have "rev ?t = takeWhile is_space_char (rev ?t) @ ?u" by simp
  then have "?t = rev ?u @ rev (takeWhile is_space_char (rev ?t))"
    by (metis rev_append rev_rev_ident)
  then have "hd ?t = hd (rev ?u)" using une by (metis hd_append2 rev_is_Nil_conv)
  moreover have "?t \<noteq> []"
  proof
    assume "?t = []"
    then have "?u = []" by (simp only: rev.simps(1) dropWhile.simps(1))
    with une show False ..
  qed
  then have "\<not> is_space_char (hd ?t)" by (rule hd_dropWhile)
  ultimately have "\<not> is_space_char (hd (str_strip s))" by (simp add: u)
  with l show ?thesis by simp
qed

lemma str_strip_idem: "str_strip (str_strip s) = str_strip s"
proof (cases "str_strip s = []")
  case True
  then show ?thesis by simp
next
  case False
  with str_strip_ends[of s] have e: "\<not> is_space_char (hd (str_strip s))"
    "\<not> is_space_char (last (str_strip s))" by auto
  have 1: "dropWhile is_space_char (str_strip s) = str_strip s"
    using e(1) by (intro dropWhile_hd) simp
  have "hd (rev (str_strip s)) = last (str_strip s)" using False by (simp add: hd_rev)
  then have 2: "dropWhile is_space_char (rev (str_strip s)) = rev (str_strip s)"
    using e(2) by (intro dropWhile_hd) simp
  show ?thesis
    by (subst (1) str_strip_def) (simp only: 1 2 rev_rev_ident)
qed

lemma close_subcategory_Some:
  "close_subcategory cleaned items = Some n \<Longrightarrow> \<exists>k. (k, n) \<in> set items"
  by (induction items) (auto split: if_splits)

text \<open>
  C7. With the shipped alias table, normalizing a normalized subcategory changes
  nothing: the result of \<open>normalize_subcategory\<close> is a value of the table, and every
  value of the table is normalized to itself (by evaluation of the function on the
  46 values), or it is the trimmed input, which no key equals or is close to.
\<close>
theorem normalize_subcategory_idempotent:
  "normalize_subcategory (normalize_subcategory x) = normalize_subcategory x"
proof (cases "x = []")
  case True
  then show ?thesis by (simp add: normalize_subcategory_def)
next
  case False
  let ?c = "str_strip x"
  show ?thesis
  proof (cases "map_of SUBCATEGORY_NORMALIZATIONS ?c")
    case (Some n)
    then have "(?c, n) \<in> set SUBCATEGORY_NORMALIZATIONS" by (rule map_of_SomeD)
    then have "normalize_subcategory n = n" by (rule table_values_fixed)
    moreover have "normalize_subcategory x = n"
      using False Some by (simp add: normalize_subcategory_def)
    ultimately show ?thesis by simp
  next
    case None
    show ?thesis
    proof (cases "close_subcategory ?c SUBCATEGORY_NORMALIZATIONS")
      case (Some n)
      from close_subcategory_Some[OF this] obtain k where
        "(k, n) \<in> set SUBCATEGORY_NORMALIZATIONS" by blast
      then have "normalize_subcategory n = n" by (rule table_values_fixed)
      moreover have "normalize_subcategory x = n"
        using False None Some by (simp add: normalize_subcategory_def)
      ultimately show ?thesis by simp
    next
      case none: None
      have x: "normalize_subcategory x = ?c"
        using False None none by (simp add: normalize_subcategory_def)
      have "normalize_subcategory ?c = ?c"
      proof (cases "?c = []")
        case True
        then show ?thesis by (simp add: normalize_subcategory_def)
      next
        case ne: False
        then show ?thesis
          using None none by (simp add: normalize_subcategory_def str_strip_idem)
      qed
      with x show ?thesis by simp
    qed
  qed
qed

end
